theory Spec2Isabelle
  imports Main "HOL-Library.Log_Nat"
begin

section \<open>Timing utilities\<close>

text \<open>
  The page script is single threaded. Time is the value of \<^verbatim>\<open>Date.now()\<close>, an integer
  number of milliseconds. A wrapper made by \<^verbatim>\<open>debounce\<close> or \<^verbatim>\<open>throttle\<close> owns at most one
  live timer, because every \<^verbatim>\<open>setTimeout\<close> of a wrapper is preceded by \<^verbatim>\<open>clearTimeout\<close> of
  the previous one. A live timer is kept as the pair of its due time and of the arguments
  its closure captured. Running the wrapped function is recorded by appending the pair
  (time, arguments) to the log of the wrapper, oldest first.

  \<^verbatim>\<open>setTimeout\<close> treats a negative delay as 0. For \<^verbatim>\<open>debounce\<close> a timer callback runs at the
  due time of its timer (inside a burst no timer is due between two calls). For \<^verbatim>\<open>throttle\<close>
  the time at which a callback runs is part of the events, since a late callback changes
  what the wrapper does.
\<close>

type_synonym 'a timer = "int \<times> 'a"

definition setTimeout :: "int \<Rightarrow> 'a \<Rightarrow> int \<Rightarrow> 'a timer" where
  "setTimeout now captured ms = (now + max 0 ms, captured)"

subsection \<open>debounce (script.js, lines 14-24)\<close>

record 'a debounce_state =
  timeout :: "'a timer option"
  executed :: "(int \<times> 'a) list"

definition debounce_init :: "'a debounce_state" where
  "debounce_init = \<lparr>timeout = None, executed = []\<rparr>"

text \<open>\<^verbatim>\<open>executedFunction(...args)\<close> called at time \<open>now\<close>: cancel the live timer, start a new one.\<close>

definition executedFunction :: "int \<Rightarrow> int \<Rightarrow> 'a \<Rightarrow> 'a debounce_state \<Rightarrow> 'a debounce_state" where
  "executedFunction wait now args s = s\<lparr>timeout := Some (setTimeout now args wait)\<rparr>"

text \<open>The callback \<^verbatim>\<open>later\<close>: clears the (already expired) timer and runs \<^verbatim>\<open>func\<close>.\<close>

definition later :: "int \<Rightarrow> 'a \<Rightarrow> 'a debounce_state \<Rightarrow> 'a debounce_state" where
  "later now args s = s\<lparr>timeout := None, executed := executed s @ [(now, args)]\<rparr>"

text \<open>Let the clock reach \<open>now\<close>: a live timer that is due by then fires at its due time.\<close>

definition debounce_advance :: "int \<Rightarrow> 'a debounce_state \<Rightarrow> 'a debounce_state" where
  "debounce_advance now s =
     (case timeout s of
        None \<Rightarrow> s
      | Some (due, args) \<Rightarrow> if due \<le> now then later due args s else s)"

text \<open>No more calls arrive: the live timer, if any, fires at its due time.\<close>

definition debounce_flush :: "'a debounce_state \<Rightarrow> 'a debounce_state" where
  "debounce_flush s =
     (case timeout s of None \<Rightarrow> s | Some (due, args) \<Rightarrow> later due args s)"

fun debounce_calls :: "int \<Rightarrow> (int \<times> 'a) list \<Rightarrow> 'a debounce_state \<Rightarrow> 'a debounce_state" where
  "debounce_calls wait [] s = s"
| "debounce_calls wait ((now, args) # cs) s =
     debounce_calls wait cs (executedFunction wait now args (debounce_advance now s))"

text \<open>All executions of \<^verbatim>\<open>func\<close> caused by the calls \<open>cs\<close> (time and arguments of each call).\<close>

definition debounce_run :: "int \<Rightarrow> (int \<times> 'a) list \<Rightarrow> (int \<times> 'a) list" where
  "debounce_run wait cs = executed (debounce_flush (debounce_calls wait cs debounce_init))"

text \<open>A burst: call times do not decrease and neighbours are less than \<open>wait\<close> apart.\<close>

fun burst :: "int \<Rightarrow> (int \<times> 'a) list \<Rightarrow> bool" where
  "burst wait [] = True"
| "burst wait [c] = True"
| "burst wait (c # d # cs) = (fst c \<le> fst d \<and> fst d - fst c < wait \<and> burst wait (d # cs))"

subsection \<open>throttle (script.js, lines 26-43)\<close>

















section \<open>Active navigation (script.js, lines 151-179)\<close>

text \<open>
  A \<^verbatim>\<open>section[id]\<close> element with the three properties the handler reads. \<^verbatim>\<open>offsetTop\<close> and
  \<^verbatim>\<open>offsetHeight\<close> are integers; \<^verbatim>\<open>window.scrollY\<close> may be fractional.
\<close>

record page_section =
  section_id :: string
  offsetTop :: int
  offsetHeight :: int

record nav_link =
  href :: string
  classList :: "string set"

text \<open>The test of line 164 for one section.\<close>

definition in_section :: "rat \<Rightarrow> page_section \<Rightarrow> bool" where
  "in_section scrollY s =
     (let sectionTop = of_int (offsetTop s) - 120;
          sectionHeight = of_int (offsetHeight s)
      in scrollY \<ge> sectionTop \<and> scrollY < sectionTop + sectionHeight)"

text \<open>The first \<^verbatim>\<open>forEach\<close>: \<open>current\<close> is overwritten by every section that passes the test.\<close>

fun find_current :: "rat \<Rightarrow> page_section list \<Rightarrow> string \<Rightarrow> string" where
  "find_current scrollY [] current = current"
| "find_current scrollY (s # ss) current =
     find_current scrollY ss (if in_section scrollY s then section_id s else current)"

text \<open>The second \<^verbatim>\<open>forEach\<close>, for one link.\<close>

definition mark_link :: "string \<Rightarrow> nav_link \<Rightarrow> nav_link" where
  "mark_link current link =
     (let removed = link\<lparr>classList := classList link - {''active''}\<rparr>
      in if href link = ''#'' @ current
         then removed\<lparr>classList := insert ''active'' (classList removed)\<rparr>
         else removed)"

definition handleScroll_nav :: "rat \<Rightarrow> page_section list \<Rightarrow> nav_link list \<Rightarrow> nav_link list" where
  "handleScroll_nav scrollY sections navLinks =
     map (mark_link (find_current scrollY sections '''')) navLinks"

text \<open>The page of the example: three sections of height 800 at 0, 800 and 1600.\<close>

definition demo_sections :: "page_section list" where
  "demo_sections =
     [\<lparr>section_id = ''home'', offsetTop = 0, offsetHeight = 800\<rparr>,
      \<lparr>section_id = ''about'', offsetTop = 800, offsetHeight = 800\<rparr>,
      \<lparr>section_id = ''contact'', offsetTop = 1600, offsetHeight = 800\<rparr>]"

definition demo_links :: "nav_link list" where
  "demo_links =
     [\<lparr>href = ''#home'', classList = {''nav-link''}\<rparr>,
      \<lparr>href = ''#about'', classList = {''nav-link''}\<rparr>,
      \<lparr>href = ''#contact'', classList = {''nav-link''}\<rparr>]"

definition is_active :: "nav_link \<Rightarrow> bool" where
  "is_active link \<longleftrightarrow> ''active'' \<in> classList link"

section \<open>Form validation (script.js, lines 311-456)\<close>

subsection \<open>Strings and the two regular expressions\<close>

text \<open>
  A string is a list of characters, each standing for the UTF-16 code unit of the same
  number (U+0000 to U+00FF). Of these, \<^verbatim>\<open>String.prototype.trim\<close> strips, and the class
  \<^verbatim>\<open>\s\<close> matches, exactly tab, line feed, vertical tab, form feed, carriage return, space
  and the no-break space.
\<close>

definition is_space :: "char \<Rightarrow> bool" where
  "is_space c \<longleftrightarrow> c \<in> {CHR 0x09, CHR 0x0A, CHR 0x0B, CHR 0x0C, CHR 0x0D, CHR 0x20, CHR 0xA0}"

definition is_digit :: "char \<Rightarrow> bool" where
  "is_digit c \<longleftrightarrow> c \<in> set ''0123456789''"

definition trim :: "string \<Rightarrow> string" where
  "trim s = rev (dropWhile is_space (rev (dropWhile is_space s)))"

text \<open>
  Regular expressions as far as the two patterns of \<^verbatim>\<open>validateField\<close> need them. Both
  patterns are anchored at both ends, so \<^verbatim>\<open>test\<close> asks whether the whole string matches.
  Matching goes by derivatives: \<open>deriv c r\<close> matches what \<open>r\<close> matches after a leading \<open>c\<close>.
\<close>

datatype regex =
  Nothing
| Empty
| Class "char \<Rightarrow> bool"
| Cat regex regex
| Or regex regex
| Many regex

fun nullable :: "regex \<Rightarrow> bool" where
  "nullable Nothing = False"
| "nullable Empty = True"
| "nullable (Class p) = False"
| "nullable (Cat r s) = (nullable r \<and> nullable s)"
| "nullable (Or r s) = (nullable r \<or> nullable s)"
| "nullable (Many r) = True"

fun deriv :: "char \<Rightarrow> regex \<Rightarrow> regex" where
  "deriv c Nothing = Nothing"
| "deriv c Empty = Nothing"
| "deriv c (Class p) = (if p c then Empty else Nothing)"
| "deriv c (Cat r s) =
     (if nullable r then Or (Cat (deriv c r) s) (deriv c s) else Cat (deriv c r) s)"
| "deriv c (Or r s) = Or (deriv c r) (deriv c s)"
| "deriv c (Many r) = Cat (deriv c r) (Many r)"

fun regex_test :: "regex \<Rightarrow> string \<Rightarrow> bool" where
  "regex_test r [] = nullable r"
| "regex_test r (c # cs) = regex_test (deriv c r) cs"

text \<open>\<^verbatim>\<open>r+\<close> and \<^verbatim>\<open>r{n,}\<close>.\<close>

definition Some1 :: "regex \<Rightarrow> regex" where
  "Some1 r = Cat r (Many r)"

fun AtLeast :: "nat \<Rightarrow> regex \<Rightarrow> regex" where
  "AtLeast 0 r = Many r"
| "AtLeast (Suc n) r = Cat r (AtLeast n r)"

text \<open>\<^verbatim>\<open>/^[^\s@]+@[^\s@]+\.[^\s@]+$/\<close>\<close>

definition emailRegex :: regex where
  "emailRegex =
     (let part = Some1 (Class (\<lambda>c. \<not> (is_space c \<or> c = CHR ''@'')))
      in Cat part (Cat (Class (\<lambda>c. c = CHR ''@''))
           (Cat part (Cat (Class (\<lambda>c. c = CHR ''.'')) part))))"

text \<open>\<^verbatim>\<open>/^[\(\)\s\-\+\d]{10,}$/\<close>\<close>

definition phoneRegex :: regex where
  "phoneRegex =
     AtLeast 10 (Class (\<lambda>c. c = CHR ''('' \<or> c = CHR '')'' \<or> is_space c \<or> c = CHR ''-''
                          \<or> c = CHR ''+'' \<or> is_digit c))"

subsection \<open>The form\<close>

text \<open>
  The elements the validation writes to are shared: a form group is the element
  \<^verbatim>\<open>field.closest('.form-group')\<close>, the same for every field inside it, and its error element
  is the first \<^verbatim>\<open>.form-error\<close> inside the group. The form therefore keeps its groups and its
  error elements in two lists, and a field or a group refers to one of them by position.
  A reference to a position that is not on the page counts as none.

  Of a group only the class \<^verbatim>\<open>error\<close> matters. A field has what \<^verbatim>\<open>validateField\<close> reads:
  \<^verbatim>\<open>value\<close>, \<^verbatim>\<open>type\<close>, the attribute \<^verbatim>\<open>required\<close> and the closest form group, if there is
  one. \<open>defaultValue\<close> is what \<^verbatim>\<open>form.reset()\<close> puts back.

  \<open>validity\<close> is not part of the page: it records what the latest \<^verbatim>\<open>validateField\<close> of the
  field returned, so that statements can speak of it.
\<close>

record error_element =
  error_text :: string
  display :: string

record form_group =
  has_error_class :: bool
  first_form_error :: "nat option"

record field =
  "value" :: string
  defaultValue :: string
  field_type :: string
  required :: bool
  closest_form_group :: "nat option"
  validity :: "bool option"

record submit_button =
  disabled :: bool
  button_text :: string

text \<open>
  The form: its fields in document order, its groups and error elements, the texts of its
  \<^verbatim>\<open>.form-error-general\<close> and \<^verbatim>\<open>.form-success\<close> elements in document order, its submit
  button, and the runs of \<^verbatim>\<open>submitForm\<close> that wait at \<^verbatim>\<open>await\<close>, each with the
  \<^verbatim>\<open>originalText\<close> it holds.
\<close>

record form =
  form_fields :: "field list"
  form_groups :: "form_group list"
  form_errors :: "error_element list"
  general_errors :: "string list"
  success_messages :: "string list"
  submitButton :: "submit_button option"
  awaiting :: "string list"

definition msg_required :: string where
  "msg_required = ''Este campo '' @ [CHR 0xE9] @ '' obrigat'' @ [CHR 0xF3] @ ''rio.''"

definition msg_email :: string where
  "msg_email = ''Por favor, insira um e-mail v'' @ [CHR 0xE1] @ ''lido.''"

definition msg_phone :: string where
  "msg_phone = ''Por favor, insira um telefone v'' @ [CHR 0xE1] @ ''lido.''"

definition msg_fix_errors :: string where
  "msg_fix_errors = ''Por favor, corrija os erros antes de enviar.''"

definition msg_send_failed :: string where
  "msg_send_failed = ''Erro ao enviar mensagem. Tente novamente.''"

definition msg_sent :: string where
  "msg_sent = ''Mensagem enviada com sucesso! Entraremos em contato em breve.''"

text \<open>\<^verbatim>\<open>field.closest('.form-group')\<close> and \<^verbatim>\<open>fieldGroup?.querySelector('.form-error')\<close>.\<close>

definition fieldGroup_of :: "field \<Rightarrow> form \<Rightarrow> nat option" where
  "fieldGroup_of f fm =
     (case closest_form_group f of
        None \<Rightarrow> None
      | Some g \<Rightarrow> if g < length (form_groups fm) then Some g else None)"

definition errorElement_of :: "nat option \<Rightarrow> form \<Rightarrow> nat option" where
  "errorElement_of fieldGroup fm =
     (case fieldGroup of
        None \<Rightarrow> None
      | Some g \<Rightarrow>
          (case first_form_error (form_groups fm ! g) of
             None \<Rightarrow> None
           | Some e \<Rightarrow> if e < length (form_errors fm) then Some e else None))"

definition showFieldError :: "nat option \<Rightarrow> nat option \<Rightarrow> string \<Rightarrow> form \<Rightarrow> form" where
  "showFieldError fieldGroup errorElement message fm =
     (let fm1 = (case fieldGroup of
                   None \<Rightarrow> fm
                 | Some g \<Rightarrow> fm\<lparr>form_groups :=
                     (form_groups fm)[g := (form_groups fm ! g)\<lparr>has_error_class := True\<rparr>]\<rparr>)
      in case errorElement of
           None \<Rightarrow> fm1
         | Some e \<Rightarrow> fm1\<lparr>form_errors :=
             (form_errors fm1)[e := (form_errors fm1 ! e)\<lparr>error_text := message,
                                                          display := ''block''\<rparr>]\<rparr>)"

definition clearFieldError :: "nat option \<Rightarrow> nat option \<Rightarrow> form \<Rightarrow> form" where
  "clearFieldError fieldGroup errorElement fm =
     (let fm1 = (case fieldGroup of
                   None \<Rightarrow> fm
                 | Some g \<Rightarrow> fm\<lparr>form_groups :=
                     (form_groups fm)[g := (form_groups fm ! g)\<lparr>has_error_class := False\<rparr>]\<rparr>)
      in case errorElement of
           None \<Rightarrow> fm1
         | Some e \<Rightarrow> fm1\<lparr>form_errors :=
             (form_errors fm1)[e := (form_errors fm1 ! e)\<lparr>display := ''none''\<rparr>]\<rparr>)"

text \<open>
  \<^verbatim>\<open>validateField\<close>: the returned boolean, the field (with the result noted in \<open>validity\<close>) and
  the form with the group and the error element of the field updated.
\<close>

definition validateField :: "field \<Rightarrow> form \<Rightarrow> bool \<times> field \<times> form" where
  "validateField f fm =
     (let v = trim (value f);
          type = field_type f;
          fieldGroup = fieldGroup_of f fm;
          errorElement = errorElement_of fieldGroup fm;
          cleared = clearFieldError fieldGroup errorElement fm
      in if required f \<and> v = []
         then (False, f\<lparr>validity := Some False\<rparr>,
               showFieldError fieldGroup errorElement msg_required cleared)
         else if type = ''email'' \<and> v \<noteq> [] \<and> \<not> regex_test emailRegex v
         then (False, f\<lparr>validity := Some False\<rparr>,
               showFieldError fieldGroup errorElement msg_email cleared)
         else if type = ''tel'' \<and> v \<noteq> [] \<and> \<not> regex_test phoneRegex v
         then (False, f\<lparr>validity := Some False\<rparr>,
               showFieldError fieldGroup errorElement msg_phone cleared)
         else (True, f\<lparr>validity := Some True\<rparr>, cleared))"

definition clearError :: "field \<Rightarrow> form \<Rightarrow> form" where
  "clearError f fm =
     (let fieldGroup = fieldGroup_of f fm;
          errorElement = errorElement_of fieldGroup fm
      in clearFieldError fieldGroup errorElement fm)"

text \<open>
  \<^verbatim>\<open>validateForm\<close>: every field with the attribute \<^verbatim>\<open>required\<close> is validated, in document
  order, and none is skipped after a failure.
\<close>

fun validateFields :: "field list \<Rightarrow> form \<Rightarrow> bool \<times> field list \<times> form" where
  "validateFields [] fm = (True, [], fm)"
| "validateFields (f # fs) fm =
     (if required f
      then (let (ok, f', fm1) = validateField f fm; (isValid, fs', fm2) = validateFields fs fm1
            in (ok \<and> isValid, f' # fs', fm2))
      else (let (isValid, fs', fm2) = validateFields fs fm in (isValid, f # fs', fm2)))"

definition validateForm :: "form \<Rightarrow> bool \<times> form" where
  "validateForm fm =
     (let (isValid, fs, fm1) = validateFields (form_fields fm) fm
      in (isValid, fm1\<lparr>form_fields := fs\<rparr>))"

text \<open>\<^verbatim>\<open>showFormError\<close> reuses the first general error element and makes one if there is none.\<close>

definition showFormError :: "string \<Rightarrow> form \<Rightarrow> form" where
  "showFormError message fm =
     (case general_errors fm of
        [] \<Rightarrow> fm\<lparr>general_errors := [message]\<rparr>
      | e # es \<Rightarrow> fm\<lparr>general_errors := message # es\<rparr>)"

text \<open>
  \<^verbatim>\<open>showSuccessMessage\<close> puts a new banner first in the form. (The timer that removes the
  banner five seconds later is left out.)
\<close>

definition showSuccessMessage :: "string \<Rightarrow> form \<Rightarrow> form" where
  "showSuccessMessage message fm = fm\<lparr>success_messages := message # success_messages fm\<rparr>"

definition form_reset :: "form \<Rightarrow> form" where
  "form_reset fm = fm\<lparr>form_fields := map (\<lambda>f. f\<lparr>value := defaultValue f\<rparr>) (form_fields fm)\<rparr>"

text \<open>
  \<^verbatim>\<open>submitForm\<close> up to its \<^verbatim>\<open>await\<close>. Without a submit button, reading \<^verbatim>\<open>textContent\<close> of
  \<^verbatim>\<open>null\<close> throws before the \<^verbatim>\<open>try\<close>: the run ends there (\<open>None\<close>) and the page is as it was.
  Otherwise the run is suspended holding \<^verbatim>\<open>originalText\<close>.
\<close>

definition submitForm_begin :: "form \<Rightarrow> (string \<times> form) option" where
  "submitForm_begin fm =
     (case submitButton fm of
        None \<Rightarrow> None
      | Some b \<Rightarrow>
          (let originalText = button_text b
           in Some (originalText,
                    fm\<lparr>submitButton := Some (b\<lparr>disabled := True, button_text := ''Enviando...''\<rparr>),
                       awaiting := awaiting fm @ [originalText]\<rparr>)))"

text \<open>
  How the awaited promise settles. The promise of line 433 always resolves; the \<^verbatim>\<open>catch\<close>
  block is there for the call that is to replace it, whose promise may reject.
\<close>

datatype outcome = Resolved | Rejected

text \<open>
  \<^verbatim>\<open>submitForm\<close> from the \<^verbatim>\<open>await\<close> on, for the run that holds \<open>originalText\<close>: the rest of
  the \<^verbatim>\<open>try\<close> block or the \<^verbatim>\<open>catch\<close> block, then the \<^verbatim>\<open>finally\<close> block.
\<close>

definition submitForm_settle :: "outcome \<Rightarrow> string \<Rightarrow> form \<Rightarrow> form" where
  "submitForm_settle out originalText fm =
     (let fm1 = (case out of
                   Resolved \<Rightarrow> form_reset (showSuccessMessage msg_sent fm)
                 | Rejected \<Rightarrow> showFormError msg_send_failed fm)
      in fm1\<lparr>submitButton :=
               map_option (\<lambda>b. b\<lparr>disabled := False, button_text := originalText\<rparr>) (submitButton fm1),
             awaiting := remove1 originalText (awaiting fm1)\<rparr>)"

definition handleSubmit :: "form \<Rightarrow> form" where
  "handleSubmit fm =
     (let (isValid, fm1) = validateForm fm
      in if isValid
         then (case submitForm_begin fm1 of None \<Rightarrow> fm1 | Some (originalText, fm2) \<Rightarrow> fm2)
         else showFormError msg_fix_errors fm1)"

text \<open>
  The events of the form: \<^verbatim>\<open>blur\<close> on the field number \<open>i\<close>; \<^verbatim>\<open>input\<close> on it, after the
  browser has put the new text in its value; \<^verbatim>\<open>submit\<close>; and the settling of the oldest
  suspended \<^verbatim>\<open>submitForm\<close>.
\<close>

datatype form_event = Blur nat | Input nat string | Submit | Settle outcome

fun form_step :: "form_event \<Rightarrow> form \<Rightarrow> form" where
  "form_step (Blur i) fm =
     (if i < length (form_fields fm)
      then (let (ok, f', fm1) = validateField (form_fields fm ! i) fm
            in fm1\<lparr>form_fields := (form_fields fm1)[i := f']\<rparr>)
      else fm)"
| "form_step (Input i v) fm =
     (if i < length (form_fields fm)
      then (let f' = (form_fields fm ! i)\<lparr>value := v\<rparr>
            in clearError f' (fm\<lparr>form_fields := (form_fields fm)[i := f']\<rparr>))
      else fm)"
| "form_step Submit fm = handleSubmit fm"
| "form_step (Settle out) fm =
     (case awaiting fm of [] \<Rightarrow> fm | originalText # rest \<Rightarrow> submitForm_settle out originalText fm)"

fun form_run :: "form_event list \<Rightarrow> form \<Rightarrow> form" where
  "form_run [] fm = fm"
| "form_run (e # es) fm = form_run es (form_step e fm)"

text \<open>The error of a field is on display: the group of the field has the class \<^verbatim>\<open>error\<close>.\<close>

definition error_shown :: "field \<Rightarrow> form \<Rightarrow> bool" where
  "error_shown f fm =
     (case fieldGroup_of f fm of None \<Rightarrow> False | Some g \<Rightarrow> has_error_class (form_groups fm ! g))"

text \<open>The groups that the fields of a list are in, one entry for each field that has one.\<close>

definition groups_of :: "field list \<Rightarrow> form \<Rightarrow> nat list" where
  "groups_of fs fm = concat (map (\<lambda>f. case fieldGroup_of f fm of None \<Rightarrow> [] | Some g \<Rightarrow> [g]) fs)"

text \<open>No two fields of the form are in the same group.\<close>

definition one_field_per_group :: "form \<Rightarrow> bool" where
  "one_field_per_group fm \<longleftrightarrow> distinct (groups_of (form_fields fm) fm)"

text \<open>A page as it loads: no error on display and no field validated yet.\<close>

definition pristine :: "form \<Rightarrow> bool" where
  "pristine fm \<longleftrightarrow> (\<forall>f \<in> set (form_fields fm). \<not> error_shown f fm \<and> validity f = None)"

text \<open>
  A contact form to try things on: name, e-mail, telephone (optional) and message, each in
  a group of its own with an error element.
\<close>

definition demo_field :: "nat \<Rightarrow> string \<Rightarrow> bool \<Rightarrow> string \<Rightarrow> field" where
  "demo_field g type req v =
     \<lparr>value = v, defaultValue = [], field_type = type, required = req,
      closest_form_group = Some g, validity = None\<rparr>"

definition demo_form :: "string \<Rightarrow> string \<Rightarrow> string \<Rightarrow> string \<Rightarrow> form" where
  "demo_form name email phone message =
     \<lparr>form_fields = [demo_field 0 ''text'' True name, demo_field 1 ''email'' True email,
                     demo_field 2 ''tel'' False phone, demo_field 3 ''textarea'' True message],
      form_groups = map (\<lambda>e. \<lparr>has_error_class = False, first_form_error = Some e\<rparr>) [0, 1, 2, 3],
      form_errors = replicate 4 \<lparr>error_text = [], display = ''none''\<rparr>,
      general_errors = [],
      success_messages = [],
      submitButton = Some \<lparr>disabled = False, button_text = ''Enviar''\<rparr>,
      awaiting = []\<rparr>"

text \<open>The same form with the name and the e-mail field inside one group.\<close>

definition shared_form :: "string \<Rightarrow> string \<Rightarrow> form" where
  "shared_form name email =
     \<lparr>form_fields = [demo_field 0 ''text'' True name, demo_field 0 ''email'' True email],
      form_groups = [\<lparr>has_error_class = False, first_form_error = Some 0\<rparr>],
      form_errors = [\<lparr>error_text = [], display = ''none''\<rparr>],
      general_errors = [],
      success_messages = [],
      submitButton = Some \<lparr>disabled = False, button_text = ''Enviar''\<rparr>,
      awaiting = []\<rparr>"

text \<open>The groups after the class \<^verbatim>\<open>error\<close> of one of them has been set or removed.\<close>

definition mark_group :: "nat option \<Rightarrow> bool \<Rightarrow> form_group list \<Rightarrow> form_group list" where
  "mark_group fg b gs = (case fg of None \<Rightarrow> gs | Some g \<Rightarrow> gs[g := (gs ! g)\<lparr>has_error_class := b\<rparr>])"

text \<open>
  Fields that share no group, and of which each one that shows an error was found invalid
  by its latest validation.
\<close>

definition tidy :: "field list \<Rightarrow> form \<Rightarrow> bool" where
  "tidy fs fm \<longleftrightarrow>
     distinct (groups_of fs fm) \<and> (\<forall>f \<in> set fs. error_shown f fm \<longrightarrow> validity f = Some False)"

text \<open>
  Fields of which each required one in a group shows its error exactly when its latest
  validation found it invalid.
\<close>

definition settled :: "field list \<Rightarrow> form \<Rightarrow> bool" where
  "settled fs fm \<longleftrightarrow>
     (\<forall>f \<in> set fs. required f \<and> fieldGroup_of f fm \<noteq> None \<longrightarrow>
        (error_shown f fm \<longleftrightarrow> validity f = Some False))"

section \<open>Counter animation (script.js, lines 226-272)\<close>

subsection \<open>Numbers\<close>

text \<open>
  A JavaScript number is a binary64 floating-point number: NaN, an infinity, or a finite
  number, which is kept as the rational it denotes (the two zeros are not told apart). An
  arithmetic operation rounds its exact result to the nearest binary64 number, ties to the
  even significand, and to an infinity from half a unit beyond the largest finite number
  on, as IEEE 754 asks. Rounding keeps 53 significant bits whatever the exponent: results
  below the normal range, which would keep fewer, do not arise from a parsed integer.

  \<open>ilog2 x\<close> is the integer part of the binary logarithm of a positive \<open>x\<close>, \<open>fl\<close> rounds to
  53 significant bits, and \<open>to_number\<close> is the Number value of a rational.
\<close>

datatype number = NaN | Num rat | PosInf | NegInf

definition pow2 :: "int \<Rightarrow> rat" where
  "pow2 e = (if 0 \<le> e then 2 ^ nat e else 1 / 2 ^ nat (- e))"

definition ilog2 :: "rat \<Rightarrow> int" where
  "ilog2 x =
     (if 1 \<le> x then bitlen \<lfloor>x\<rfloor> - 1
      else (let l = bitlen \<lfloor>1 / x\<rfloor> in if pow2 (1 - l) \<le> x then 1 - l else - l))"

definition round_half_even :: "rat \<Rightarrow> int" where
  "round_half_even m =
     (let f = \<lfloor>m\<rfloor>; d = m - of_int f
      in if d < 1 / 2 then f else if 1 / 2 < d then f + 1 else if even f then f else f + 1)"

definition fl :: "rat \<Rightarrow> rat" where
  "fl x =
     (if x = 0 then 0
      else (let e = ilog2 \<bar>x\<bar> - 52
            in sgn x * of_int (round_half_even (\<bar>x\<bar> / pow2 e)) * pow2 e))"

text \<open>The largest finite number is \<open>2 ^ 1024 - 2 ^ 971\<close>; half a unit beyond it:\<close>

definition overflow_threshold :: rat where
  "overflow_threshold = 2 ^ 1024 - 2 ^ 970"

definition to_number :: "rat \<Rightarrow> number" where
  "to_number x =
     (if overflow_threshold \<le> x then PosInf
      else if x \<le> - overflow_threshold then NegInf
      else Num (fl x))"

text \<open>\<^verbatim>\<open>a + b\<close>, \<^verbatim>\<open>a / b\<close>, \<^verbatim>\<open>a < b\<close> and \<^verbatim>\<open>Math.floor(a)\<close>.\<close>

fun js_add :: "number \<Rightarrow> number \<Rightarrow> number" where
  "js_add NaN b = NaN"
| "js_add a NaN = NaN"
| "js_add (Num x) (Num y) = to_number (x + y)"
| "js_add PosInf NegInf = NaN"
| "js_add NegInf PosInf = NaN"
| "js_add PosInf b = PosInf"
| "js_add a PosInf = PosInf"
| "js_add NegInf b = NegInf"
| "js_add a NegInf = NegInf"

text \<open>A zero divisor is taken to be the positive zero; the script divides by 16 and by 125.\<close>

fun js_div :: "number \<Rightarrow> number \<Rightarrow> number" where
  "js_div NaN b = NaN"
| "js_div a NaN = NaN"
| "js_div (Num x) (Num y) =
     (if y = 0 then (if x = 0 then NaN else if 0 < x then PosInf else NegInf)
      else to_number (x / y))"
| "js_div (Num x) b = Num 0"
| "js_div PosInf (Num y) = (if 0 \<le> y then PosInf else NegInf)"
| "js_div NegInf (Num y) = (if 0 \<le> y then NegInf else PosInf)"
| "js_div a b = NaN"

fun js_lt :: "number \<Rightarrow> number \<Rightarrow> bool" where
  "js_lt NaN b = False"
| "js_lt a NaN = False"
| "js_lt (Num x) (Num y) = (x < y)"
| "js_lt a NegInf = False"
| "js_lt PosInf b = False"
| "js_lt a b = True"

fun js_floor :: "number \<Rightarrow> number" where
  "js_floor (Num x) = Num (of_int \<lfloor>x\<rfloor>)"
| "js_floor a = a"

text \<open>
  What \<^verbatim>\<open>parseInt\<close> returns: NaN when the text does not start with a whole number, and the
  Number value of that whole number when it does.
\<close>

fun parseInt_result :: "int option \<Rightarrow> number" where
  "parseInt_result None = NaN"
| "parseInt_result (Some n) = to_number (of_int n)"

subsection \<open>One animation\<close>

text \<open>
  The variables that the closure \<^verbatim>\<open>updateCounter\<close> of one call of \<^verbatim>\<open>animateCounter\<close> shares.
\<close>

record animation =
  target :: number
  increment :: number
  current :: number

text \<open>
  One call of \<^verbatim>\<open>updateCounter\<close>: the number it writes to \<^verbatim>\<open>textContent\<close>, and the closure
  again when it has asked for another animation frame.
\<close>

definition updateCounter :: "animation \<Rightarrow> number \<times> animation option" where
  "updateCounter a =
     (let cur = js_add (current a) (increment a)
      in if js_lt cur (target a)
         then (js_floor cur, Some (a\<lparr>current := cur\<rparr>))
         else (target a, None))"

text \<open>
  \<^verbatim>\<open>animateCounter\<close> for an element whose attribute \<^verbatim>\<open>data-target\<close> parses to \<open>tgt\<close>. The
  first \<^verbatim>\<open>updateCounter\<close> runs within the call.
\<close>

definition animateCounter :: "number \<Rightarrow> number \<times> animation option" where
  "animateCounter tgt =
     (let duration = Num 2000;
          inc = js_div tgt (js_div duration (Num 16))
      in updateCounter \<lparr>target = tgt, increment = inc, current = Num 0\<rparr>)"

text \<open>
  The numbers written so far and the closure waiting for a frame, after \<open>n\<close> more animation
  frames. A frame with no closure waiting changes nothing: the animation has stopped.
\<close>

fun frames :: "nat \<Rightarrow> number list \<times> animation option \<Rightarrow> number list \<times> animation option" where
  "frames 0 st = st"
| "frames (Suc n) (ws, None) = (ws, None)"
| "frames (Suc n) (ws, Some a) =
     frames n (let (w, cb) = updateCounter a in (ws @ [w], cb))"

definition animation_after :: "nat \<Rightarrow> number \<Rightarrow> number list \<times> animation option" where
  "animation_after n tgt = frames n (let (w, cb) = animateCounter tgt in ([w], cb))"

text \<open>A list of numbers in which no number is below the one before it.\<close>

fun nondecreasing :: "number list \<Rightarrow> bool" where
  "nondecreasing [] = True"
| "nondecreasing [w] = True"
| "nondecreasing (Num x # Num y # ws) = (x \<le> y \<and> nondecreasing (Num y # ws))"
| "nondecreasing (v # w # ws) = False"

text \<open>A list of numbers in which every number is above the one before it.\<close>

fun increasing :: "number list \<Rightarrow> bool" where
  "increasing [] = True"
| "increasing [w] = True"
| "increasing (Num x # Num y # ws) = (x < y \<and> increasing (Num y # ws))"
| "increasing (v # w # ws) = False"

subsection \<open>The counters of the page\<close>

text \<open>
  An element with the attribute \<^verbatim>\<open>data-target\<close>: the parsed attribute, what it shows (the
  text of the markup, or a number written by an animation), and the closures of its
  animations that wait for a frame. \<open>started\<close> is not part of the page: it counts the calls
  of \<^verbatim>\<open>animateCounter\<close> for the element.
\<close>

datatype content = Markup string | Shown number

record stat =
  data_target :: number
  textContent :: content
  callbacks :: "animation list"
  started :: nat

text \<open>The elements \<^verbatim>\<open>statNumbers\<close> and the set \<^verbatim>\<open>this.animated\<close>, which holds their positions.\<close>

record counters =
  statNumbers :: "stat list"
  animated :: "nat set"

text \<open>
  What the handler reads of the window when it runs: \<^verbatim>\<open>window.innerHeight\<close> and, for the
  element at each position, top and bottom of \<^verbatim>\<open>getBoundingClientRect()\<close>.
\<close>

record viewport =
  innerHeight :: rat
  boundingRect :: "nat \<Rightarrow> rat \<times> rat"

definition isInViewport :: "viewport \<Rightarrow> nat \<Rightarrow> bool" where
  "isInViewport vp i = (let (top, bottom) = boundingRect vp i in top < innerHeight vp \<and> bottom > 0)"

definition start_animation :: "stat \<Rightarrow> stat" where
  "start_animation st =
     (let (w, cb) = animateCounter (data_target st)
      in st\<lparr>textContent := Shown w,
            callbacks := callbacks st @ (case cb of None \<Rightarrow> [] | Some a \<Rightarrow> [a]),
            started := Suc (started st)\<rparr>)"

text \<open>The body of the \<^verbatim>\<open>forEach\<close> of the handler, for the element at position \<open>i\<close>.\<close>

definition check_stat :: "viewport \<Rightarrow> nat \<Rightarrow> counters \<Rightarrow> counters" where
  "check_stat vp i s =
     (if i \<in> animated s then s
      else if isInViewport vp i
      then s\<lparr>statNumbers := (statNumbers s)[i := start_animation (statNumbers s ! i)],
             animated := insert i (animated s)\<rparr>
      else s)"

definition handleScroll_counter :: "viewport \<Rightarrow> counters \<Rightarrow> counters" where
  "handleScroll_counter vp s = fold (check_stat vp) [0 ..< length (statNumbers s)] s"

text \<open>An animation frame runs the waiting closures of every element, oldest first.\<close>

fun run_callbacks :: "animation list \<Rightarrow> stat \<Rightarrow> stat" where
  "run_callbacks [] st = st"
| "run_callbacks (a # as) st =
     run_callbacks as
       (let (w, cb) = updateCounter a
        in st\<lparr>textContent := Shown w,
              callbacks := callbacks st @ (case cb of None \<Rightarrow> [] | Some a' \<Rightarrow> [a'])\<rparr>)"

definition frame_stat :: "stat \<Rightarrow> stat" where
  "frame_stat st = run_callbacks (callbacks st) (st\<lparr>callbacks := []\<rparr>)"

datatype counter_event = Trigger viewport | AnimationFrame

fun counter_step :: "counter_event \<Rightarrow> counters \<Rightarrow> counters" where
  "counter_step (Trigger vp) s = handleScroll_counter vp s"
| "counter_step AnimationFrame s = s\<lparr>statNumbers := map frame_stat (statNumbers s)\<rparr>"

fun counter_run :: "counter_event list \<Rightarrow> counters \<Rightarrow> counters" where
  "counter_run [] s = s"
| "counter_run (e # es) s = counter_run es (counter_step e s)"

text \<open>The page as \<^verbatim>\<open>new CounterAnimation()\<close> finds it: nothing animated yet.\<close>

definition fresh :: "counters \<Rightarrow> bool" where
  "fresh s \<longleftrightarrow> animated s = {} \<and> (\<forall>st \<in> set (statNumbers s). started st = 0 \<and> callbacks st = [])"

text \<open>An element is in the set exactly when \<^verbatim>\<open>animateCounter\<close> has run for it, once.\<close>

definition once :: "counters \<Rightarrow> bool" where
  "once s \<longleftrightarrow>
     (\<forall>i < length (statNumbers s). started (statNumbers s ! i) = (if i \<in> animated s then 1 else 0))"

text \<open>The numbers shown before the last one: whole numbers from 0 up to, not including, \<open>q\<close>.\<close>

definition below :: "rat \<Rightarrow> number \<Rightarrow> bool" where
  "below q w \<longleftrightarrow> (\<exists>i. w = Num (of_int i) \<and> 0 \<le> i \<and> of_int i < q)"

text \<open>An animation towards the positive target \<open>q\<close> that waits for its next frame.\<close>

definition waiting :: "rat \<Rightarrow> number list \<Rightarrow> animation \<Rightarrow> bool" where
  "waiting q ws a \<longleftrightarrow>
     (\<exists>c. a = \<lparr>target = Num q, increment = Num (fl (q / 125)), current = Num c\<rparr>
        \<and> 0 \<le> c \<and> c < q
        \<and> ws \<noteq> [] \<and> last ws = Num (of_int \<lfloor>c\<rfloor>) \<and> nondecreasing ws
        \<and> (\<forall>w \<in> set ws. below q w))"

text \<open>An animation towards \<open>q\<close> that has stopped.\<close>

definition finished :: "rat \<Rightarrow> number list \<Rightarrow> bool" where
  "finished q ws \<longleftrightarrow>
     ws \<noteq> [] \<and> last ws = Num q \<and> nondecreasing ws \<and> (\<forall>w \<in> set (butlast ws). below q w)"

text \<open>A page with one counter, for 100, and a window that shows it.\<close>

definition demo_counters :: counters where
  "demo_counters =
     \<lparr>statNumbers = [\<lparr>data_target = Num 100, textContent = Markup ''0'', callbacks = [],
                      started = 0\<rparr>],
      animated = {}\<rparr>"

definition demo_viewport :: viewport where
  "demo_viewport = \<lparr>innerHeight = 600, boundingRect = (\<lambda>i. (100, 140))\<rparr>"

section \<open>Properties of the timing utilities\<close>

subsection \<open>debounce\<close>

lemma debounce_calls_burst:
  "burst wait (c # cs) \<Longrightarrow>
   (case timeout s of None \<Rightarrow> True | Some (due, a) \<Rightarrow> fst c < due) \<Longrightarrow>
   debounce_calls wait (c # cs) s =
     s\<lparr>timeout := Some (setTimeout (fst (last (c # cs))) (snd (last (c # cs))) wait)\<rparr>"
proof (induction cs arbitrary: c s)
  case Nil
  then show ?case
    by (cases c) (auto simp: executedFunction_def debounce_advance_def split: option.splits)
next
  case (Cons d cs)
  obtain t a where c: "c = (t, a)" by (cases c)
  let ?s1 = "executedFunction wait t a (debounce_advance t s)"
  from Cons.prems have adv: "debounce_advance t s = s"
    by (auto simp: debounce_advance_def c split: option.splits)
  have s1: "?s1 = s\<lparr>timeout := Some (setTimeout t a wait)\<rparr>"
    by (simp add: adv executedFunction_def)
  from Cons.prems have b: "burst wait (d # cs)" and lt: "fst d - t < wait" "t \<le> fst d"
    by (auto simp: c)
  have pre: "(case timeout ?s1 of None \<Rightarrow> True | Some (due, a) \<Rightarrow> fst d < due)"
    using lt by (simp add: s1 setTimeout_def)
  have "debounce_calls wait (c # d # cs) s = debounce_calls wait (d # cs) ?s1"
    by (simp add: c)
  also have "\<dots> = ?s1\<lparr>timeout := Some (setTimeout (fst (last (d # cs))) (snd (last (d # cs))) wait)\<rparr>"
    by (rule Cons.IH [OF b pre])
  finally show ?case by (simp add: s1)
qed

text \<open>
  Claim C9. A burst of one or more calls of the debounced function, each less than \<open>wait\<close>
  after the one before, runs the underlying action exactly once: \<open>wait\<close> milliseconds
  after the last call of the burst, with the arguments of that last call.
\<close>

theorem debounce_burst_once:
  assumes "cs \<noteq> []" and "burst wait cs"
  shows "debounce_run wait cs = [(fst (last cs) + max 0 wait, snd (last cs))]"
proof -
  from assms(1) obtain c cs' where cs: "cs = c # cs'" by (cases cs) auto
  have "debounce_calls wait (c # cs') debounce_init =
     debounce_init\<lparr>timeout := Some (setTimeout (fst (last (c # cs'))) (snd (last (c # cs'))) wait)\<rparr>"
    using assms(2) by (intro debounce_calls_burst) (simp_all add: cs debounce_init_def)
  then show ?thesis
    by (simp add: debounce_run_def cs debounce_flush_def later_def debounce_init_def setTimeout_def)
qed

theorem debounce_burst_once_witness:
  "[(0, ''a''), (30, ''b''), (80, ''c'')] \<noteq> [] \<and> burst 100 [(0, ''a''), (30, ''b''), (80, ''c'')]
   \<and> debounce_run 100 [(0, ''a''), (30, ''b''), (80, ''c'')] = [(180, ''c'')]"
  using debounce_burst_once [of "[(0, ''a''), (30, ''b''), (80, ''c'')]" 100] by simp

subsection \<open>throttle\<close>












section \<open>Properties of the active navigation\<close>

lemma find_current_last:
  "find_current y secs cur =
     (if filter (in_section y) secs = [] then cur
      else section_id (last (filter (in_section y) secs)))"
  by (induction secs arbitrary: cur) auto

lemma mark_link_href: "href (mark_link cur l) = href l"
  by (simp add: mark_link_def Let_def)

lemma mark_link_active: "is_active (mark_link cur l) \<longleftrightarrow> href l = ''#'' @ cur"
  by (simp add: mark_link_def Let_def is_active_def)

lemma mark_link_others: "classList (mark_link cur l) - {''active''} = classList l - {''active''}"
  by (auto simp: mark_link_def Let_def)

lemma demo_in_section:
  "in_section y (demo_sections ! 0) \<longleftrightarrow> - 120 \<le> y \<and> y < 680"
  "in_section y (demo_sections ! 1) \<longleftrightarrow> 680 \<le> y \<and> y < 1480"
  "in_section y (demo_sections ! 2) \<longleftrightarrow> 1480 \<le> y \<and> y < 2280"
  by (simp_all add: demo_sections_def in_section_def Let_def)

text \<open>
  Claim C2, as amended. For every scroll offset the current section is the last one, in
  document order, whose range [top - 120, top - 120 + height) holds the offset (the empty
  name when there is none), and after the handler a link is active exactly when its
  \<^verbatim>\<open>href\<close> is \<^verbatim>\<open>#\<close> followed by that name. With sections at 0, 800 and 1600, each 800 high, an
  offset of 850 makes the second link active, an offset of -50 makes the first link active
  (the range of the first section starts at -120), and an offset of -121 makes no link
  active.
\<close>

theorem active_nav_last_match:
  "find_current y secs '''' =
     (if filter (in_section y) secs = [] then ''''
      else section_id (last (filter (in_section y) secs)))
   \<and> length (handleScroll_nav y secs links) = length links
   \<and> (\<forall>i < length links.
         href (handleScroll_nav y secs links ! i) = href (links ! i) \<and>
         (is_active (handleScroll_nav y secs links ! i) \<longleftrightarrow>
            href (links ! i) = ''#'' @ find_current y secs ''''))
   \<and> map is_active (handleScroll_nav 850 demo_sections demo_links) = [False, True, False]
   \<and> map is_active (handleScroll_nav (- 50) demo_sections demo_links) = [True, False, False]
   \<and> map is_active (handleScroll_nav (- 121) demo_sections demo_links) = [False, False, False]"
proof -
  have a: "find_current y secs '''' =
     (if filter (in_section y) secs = [] then ''''
      else section_id (last (filter (in_section y) secs)))"
    by (rule find_current_last)
  have b: "length (handleScroll_nav y secs links) = length links"
    by (simp add: handleScroll_nav_def)
  have c: "\<forall>i < length links.
         href (handleScroll_nav y secs links ! i) = href (links ! i) \<and>
         (is_active (handleScroll_nav y secs links ! i) \<longleftrightarrow>
            href (links ! i) = ''#'' @ find_current y secs '''')"
    by (simp add: handleScroll_nav_def mark_link_href mark_link_active)
  have d: "map is_active (handleScroll_nav 850 demo_sections demo_links) = [False, True, False]"
    by (simp add: handleScroll_nav_def demo_sections_def demo_links_def in_section_def
        mark_link_active)
  have e: "map is_active (handleScroll_nav (- 50) demo_sections demo_links) = [True, False, False]"
    by (simp add: handleScroll_nav_def demo_sections_def demo_links_def in_section_def
        mark_link_active)
  have f: "map is_active (handleScroll_nav (- 121) demo_sections demo_links) = [False, False, False]"
    by (simp add: handleScroll_nav_def demo_sections_def demo_links_def in_section_def
        mark_link_active)
  from a b c d e f show ?thesis by blast
qed

theorem active_nav_last_match_witness:
  "(1::nat) < length demo_links
   \<and> find_current 850 demo_sections '''' = ''about''
   \<and> href (handleScroll_nav 850 demo_sections demo_links ! 1) = ''#about''
   \<and> is_active (handleScroll_nav 850 demo_sections demo_links ! 1)"
  using active_nav_last_match [of 850 demo_sections demo_links]
  by (simp add: demo_sections_def demo_links_def in_section_def)

text \<open>
  Claim C2 as stated has no active link at the offset -50. The first section is current
  there and its link is active.
\<close>

theorem active_nav_negative_scroll_counterexample:
  "find_current (- 50) demo_sections '''' = ''home''
   \<and> is_active (handleScroll_nav (- 50) demo_sections demo_links ! 0)"
  by (simp add: handleScroll_nav_def demo_sections_def demo_links_def in_section_def
      mark_link_def is_active_def)

section \<open>Properties of the form\<close>

subsection \<open>Field validation\<close>

lemma email_no_dot: "\<not> regex_test emailRegex ''a@b''"
  by (simp add: emailRegex_def Some1_def is_space_def Let_def)

lemma email_with_dot: "regex_test emailRegex ''a@b.com''"
  by (simp add: emailRegex_def Some1_def is_space_def Let_def)

lemma trim_examples: "trim ''a@b'' = ''a@b''" "trim ''a@b.com'' = ''a@b.com''"
  by (simp_all add: trim_def is_space_def)

text \<open>
  Claim C8. An e-mail field holding \<^verbatim>\<open>a@b\<close> is invalid, one holding \<^verbatim>\<open>a@b.com\<close> is valid, and a
  required field whose trimmed value is empty is invalid whatever its type.
\<close>

theorem validateField_email_and_required:
  "(field_type f = ''email'' \<and> value f = ''a@b'' \<longrightarrow> \<not> fst (validateField f fm))
   \<and> (field_type f = ''email'' \<and> value f = ''a@b.com'' \<longrightarrow> fst (validateField f fm))
   \<and> (required f \<and> trim (value f) = [] \<longrightarrow> \<not> fst (validateField f fm))"
  by (simp add: validateField_def Let_def trim_examples email_no_dot email_with_dot
      del: regex_test.simps)

theorem validateField_email_and_required_witness:
  "field_type (demo_field 1 ''email'' False ''a@b'') = ''email''
   \<and> value (demo_field 1 ''email'' False ''a@b'') = ''a@b''
   \<and> \<not> fst (validateField (demo_field 1 ''email'' False ''a@b'') (demo_form [] [] [] []))
   \<and> field_type (demo_field 1 ''email'' True ''a@b.com'') = ''email''
   \<and> value (demo_field 1 ''email'' True ''a@b.com'') = ''a@b.com''
   \<and> fst (validateField (demo_field 1 ''email'' True ''a@b.com'') (demo_form [] [] [] []))
   \<and> required (demo_field 2 ''tel'' True ''   '') \<and> trim (value (demo_field 2 ''tel'' True ''   '')) = []
   \<and> \<not> fst (validateField (demo_field 2 ''tel'' True ''   '') (demo_form [] [] [] []))"
  using validateField_email_and_required [of "demo_field 1 ''email'' False ''a@b''" "demo_form [] [] [] []"]
    validateField_email_and_required [of "demo_field 1 ''email'' True ''a@b.com''" "demo_form [] [] [] []"]
    validateField_email_and_required [of "demo_field 2 ''tel'' True ''   ''" "demo_form [] [] [] []"]
  by (simp add: demo_field_def trim_def is_space_def)

subsection \<open>What a validation changes\<close>

lemma fieldGroup_of_bound: "fieldGroup_of f fm = Some g \<Longrightarrow> g < length (form_groups fm)"
  by (auto simp: fieldGroup_of_def split: option.splits if_splits)

lemma errorElement_of_bound: "errorElement_of fg fm = Some e \<Longrightarrow> e < length (form_errors fm)"
  by (auto simp: errorElement_of_def split: option.splits if_splits)

lemma fieldGroup_of_cong:
  "closest_form_group f' = closest_form_group f \<Longrightarrow>
   length (form_groups fm') = length (form_groups fm) \<Longrightarrow>
   fieldGroup_of f' fm' = fieldGroup_of f fm"
  by (simp add: fieldGroup_of_def split: option.splits)

lemma length_mark_group [simp]: "length (mark_group fg b gs) = length gs"
  by (simp add: mark_group_def split: option.splits)

lemma mark_group_twice: "mark_group fg b (mark_group fg c gs) = mark_group fg b gs"
proof (cases fg)
  case None
  then show ?thesis by (simp add: mark_group_def)
next
  case (Some g)
  then show ?thesis
    by (cases "g < length gs") (simp_all add: mark_group_def list_update_beyond)
qed

lemma mark_group_nth:
  "g < length gs \<Longrightarrow>
   has_error_class (mark_group fg b gs ! g) = (if fg = Some g then b else has_error_class (gs ! g))"
  by (cases fg) (simp_all add: mark_group_def nth_list_update)

lemma clearFieldError_groups:
  "form_groups (clearFieldError fg ee fm) = mark_group fg False (form_groups fm)"
  by (simp add: clearFieldError_def mark_group_def Let_def split: option.splits)

lemma showFieldError_groups:
  "form_groups (showFieldError fg ee m fm) = mark_group fg True (form_groups fm)"
  by (simp add: showFieldError_def mark_group_def Let_def split: option.splits)

lemma clearFieldError_rest:
  "form_fields (clearFieldError fg ee fm) = form_fields fm"
  "general_errors (clearFieldError fg ee fm) = general_errors fm"
  "success_messages (clearFieldError fg ee fm) = success_messages fm"
  "submitButton (clearFieldError fg ee fm) = submitButton fm"
  "awaiting (clearFieldError fg ee fm) = awaiting fm"
  by (simp_all add: clearFieldError_def Let_def split: option.splits)

lemma showFieldError_rest:
  "form_fields (showFieldError fg ee m fm) = form_fields fm"
  "general_errors (showFieldError fg ee m fm) = general_errors fm"
  "success_messages (showFieldError fg ee m fm) = success_messages fm"
  "submitButton (showFieldError fg ee m fm) = submitButton fm"
  "awaiting (showFieldError fg ee m fm) = awaiting fm"
  by (simp_all add: showFieldError_def Let_def split: option.splits)

lemma validateField_groups:
  "form_groups (snd (snd (validateField f fm)))
     = mark_group (fieldGroup_of f fm) (\<not> fst (validateField f fm)) (form_groups fm)"
  by (simp add: validateField_def Let_def showFieldError_groups clearFieldError_groups
      mark_group_twice)

lemma validateField_rest:
  "form_fields (snd (snd (validateField f fm))) = form_fields fm"
  "general_errors (snd (snd (validateField f fm))) = general_errors fm"
  "success_messages (snd (snd (validateField f fm))) = success_messages fm"
  "submitButton (snd (snd (validateField f fm))) = submitButton fm"
  "awaiting (snd (snd (validateField f fm))) = awaiting fm"
  by (simp_all add: validateField_def Let_def showFieldError_rest clearFieldError_rest)

lemma validateField_field:
  "fst (snd (validateField f fm)) = f\<lparr>validity := Some (fst (validateField f fm))\<rparr>"
  by (simp add: validateField_def Let_def)

lemma validateField_independent: "fst (validateField f fm') = fst (validateField f fm)"
  by (simp add: validateField_def Let_def)

lemma validateField_display:
  assumes "errorElement_of (fieldGroup_of f fm) fm = Some e"
  shows "display (form_errors (snd (snd (validateField f fm))) ! e)
     = (if fst (validateField f fm) then ''none'' else ''block'')"
  using assms errorElement_of_bound [OF assms]
  by (simp add: validateField_def Let_def showFieldError_def clearFieldError_def
      split: option.splits)

lemma clearError_groups:
  "form_groups (clearError f fm) = mark_group (fieldGroup_of f fm) False (form_groups fm)"
  by (simp add: clearError_def Let_def clearFieldError_groups)

lemma clearError_rest:
  "form_fields (clearError f fm) = form_fields fm"
  "general_errors (clearError f fm) = general_errors fm"
  "success_messages (clearError f fm) = success_messages fm"
  "submitButton (clearError f fm) = submitButton fm"
  "awaiting (clearError f fm) = awaiting fm"
  by (simp_all add: clearError_def Let_def clearFieldError_rest)

text \<open>The display of a field after the class of some group has been set or removed.\<close>

lemma error_shown_mark:
  assumes "closest_form_group x' = closest_form_group x"
    and "form_groups fm' = mark_group fg b (form_groups fm)"
  shows "error_shown x' fm'
     = (if fieldGroup_of x fm = None then False
        else if fieldGroup_of x fm = fg then b else error_shown x fm)"
proof -
  have same: "fieldGroup_of x' fm' = fieldGroup_of x fm"
    using assms by (intro fieldGroup_of_cong) simp_all
  show ?thesis
  proof (cases "fieldGroup_of x fm")
    case None
    then show ?thesis by (simp add: error_shown_def same)
  next
    case (Some g)
    from fieldGroup_of_bound [OF this] have "g < length (form_groups fm)" .
    then show ?thesis
      using Some by (auto simp: error_shown_def same assms(2) mark_group_nth)
  qed
qed

subsection \<open>Fields that do not share a group\<close>

lemma groups_of_append: "groups_of (xs @ ys) fm = groups_of xs fm @ groups_of ys fm"
  by (simp add: groups_of_def)

lemma groups_of_Cons:
  "groups_of (x # xs) fm
     = (case fieldGroup_of x fm of None \<Rightarrow> [] | Some g \<Rightarrow> [g]) @ groups_of xs fm"
  by (simp add: groups_of_def)

lemma groups_of_member:
  "x \<in> set xs \<Longrightarrow> fieldGroup_of x fm = Some g \<Longrightarrow> g \<in> set (groups_of xs fm)"
  by (force simp: groups_of_def)

lemma groups_of_cong:
  assumes "length (form_groups fm') = length (form_groups fm)"
  shows "groups_of xs fm' = groups_of xs fm"
proof -
  have "fieldGroup_of f fm' = fieldGroup_of f fm" for f
    using assms by (intro fieldGroup_of_cong) simp_all
  then show ?thesis by (simp add: groups_of_def)
qed

lemma groups_of_same_group:
  assumes "closest_form_group f' = closest_form_group f"
  shows "groups_of (pre @ f' # post) fm = groups_of (pre @ f # post) fm"
proof -
  have "fieldGroup_of f' fm = fieldGroup_of f fm"
    using assms by (intro fieldGroup_of_cong) simp_all
  then show ?thesis by (simp add: groups_of_append groups_of_Cons)
qed

lemma other_group:
  assumes "distinct (groups_of (pre @ f # post) fm)"
    and "x \<in> set pre \<union> set post"
    and "fieldGroup_of x fm \<noteq> None"
  shows "fieldGroup_of x fm \<noteq> fieldGroup_of f fm"
proof
  assume eq: "fieldGroup_of x fm = fieldGroup_of f fm"
  with assms(3) obtain g where g: "fieldGroup_of x fm = Some g" "fieldGroup_of f fm = Some g"
    by auto
  from assms(2) g(1) have "g \<in> set (groups_of pre fm) \<or> g \<in> set (groups_of post fm)"
    by (auto intro: groups_of_member)
  with assms(1) g(2) show False
    by (auto simp: groups_of_append groups_of_Cons)
qed

text \<open>One validation, of a field that shares its group with no other field.\<close>

lemma validateField_alone:
  assumes d: "distinct (groups_of (pre @ f # post) fm)"
    and v: "validateField f fm = (ok, f', fm1)"
  shows "distinct (groups_of (pre @ f' # post) fm1)"
    and "\<forall>x \<in> set pre \<union> set post. error_shown x fm1 = error_shown x fm"
    and "error_shown f' fm1 = (fieldGroup_of f fm \<noteq> None \<and> \<not> ok)"
    and "validity f' = Some ok"
proof -
  from v have ok: "ok = fst (validateField f fm)" and f': "f' = fst (snd (validateField f fm))"
    and fm1: "fm1 = snd (snd (validateField f fm))"
    by simp_all
  have f'': "f' = f\<lparr>validity := Some ok\<rparr>"
    by (simp add: f' ok validateField_field)
  have gs: "form_groups fm1 = mark_group (fieldGroup_of f fm) (\<not> ok) (form_groups fm)"
    by (simp add: fm1 ok validateField_groups)
  then have len: "length (form_groups fm1) = length (form_groups fm)" by simp
  have "closest_form_group f' = closest_form_group f" by (simp add: f'')
  from groups_of_same_group [OF this, of pre post fm]
  have "groups_of (pre @ f' # post) fm1 = groups_of (pre @ f # post) fm"
    by (simp add: groups_of_cong [OF len])
  with d show "distinct (groups_of (pre @ f' # post) fm1)" by simp
  show "\<forall>x \<in> set pre \<union> set post. error_shown x fm1 = error_shown x fm"
  proof
    fix x assume x: "x \<in> set pre \<union> set post"
    show "error_shown x fm1 = error_shown x fm"
    proof (cases "fieldGroup_of x fm = None")
      case True
      then show ?thesis
        using error_shown_mark [OF refl gs, of x] by (simp add: error_shown_def)
    next
      case False
      from other_group [OF d x False] False show ?thesis
        using error_shown_mark [OF refl gs, of x] by auto
    qed
  qed
  show "error_shown f' fm1 = (fieldGroup_of f fm \<noteq> None \<and> \<not> ok)"
    using error_shown_mark [OF _ gs, of f' f] by (simp add: f'')
  show "validity f' = Some ok" by (simp add: f'')
qed

lemma validateField_tidy:
  assumes "tidy (pre @ f # post) fm" and "validateField f fm = (ok, f', fm1)"
  shows "tidy (pre @ f' # post) fm1"
  using assms validateField_alone [OF _ assms(2), of pre post]
  by (auto simp: tidy_def)

lemma validateFields_tidy:
  "tidy (pre @ fs) fm \<Longrightarrow> validateFields fs fm = (ok, fs', fm') \<Longrightarrow> tidy (pre @ fs') fm'"
proof (induction fs arbitrary: pre fm ok fs' fm')
  case Nil
  then show ?case by simp
next
  case (Cons f fs)
  show ?case
  proof (cases "required f")
    case True
    obtain ok1 f1 fm1 where v: "validateField f fm = (ok1, f1, fm1)"
      by (cases "validateField f fm")
    obtain ok2 fs2 fm2 where r: "validateFields fs fm1 = (ok2, fs2, fm2)"
      by (cases "validateFields fs fm1")
    from Cons.prems(2) True v r have eq: "fs' = f1 # fs2" "fm' = fm2" by simp_all
    from validateField_tidy [OF Cons.prems(1) v] have "tidy ((pre @ [f1]) @ fs) fm1" by simp
    from Cons.IH [OF this r] show ?thesis by (simp add: eq)
  next
    case False
    obtain ok2 fs2 fm2 where r: "validateFields fs fm = (ok2, fs2, fm2)"
      by (cases "validateFields fs fm")
    from Cons.prems(2) False r have eq: "fs' = f # fs2" "fm' = fm2" by simp_all
    from Cons.prems(1) have "tidy ((pre @ [f]) @ fs) fm" by simp
    from Cons.IH [OF this r] show ?thesis by (simp add: eq)
  qed
qed

text \<open>After the validation of a form, the display of every required field is up to date.\<close>

lemma validateField_settled:
  assumes d: "distinct (groups_of (pre @ f # post) fm)" and s: "settled pre fm"
    and v: "validateField f fm = (ok, f', fm1)"
  shows "settled (pre @ [f']) fm1"
proof -
  note a = validateField_alone [OF d v]
  have len: "length (form_groups fm1) = length (form_groups fm)"
    using v validateField_groups [of f fm] by simp
  have grp: "fieldGroup_of x fm1 = fieldGroup_of x fm" for x
    by (rule fieldGroup_of_cong [OF refl len])
  have "fieldGroup_of f' fm1 = fieldGroup_of f fm"
    using v validateField_field [of f fm] by (intro fieldGroup_of_cong [OF _ len]) simp
  with a(3,4) have "fieldGroup_of f' fm1 \<noteq> None \<longrightarrow> (error_shown f' fm1 \<longleftrightarrow> validity f' = Some False)"
    by simp
  moreover have "\<forall>x \<in> set pre. required x \<and> fieldGroup_of x fm1 \<noteq> None \<longrightarrow>
      (error_shown x fm1 \<longleftrightarrow> validity x = Some False)"
    using s a(2) by (simp add: settled_def grp)
  ultimately show ?thesis by (simp add: settled_def)
qed

lemma validateFields_settled:
  "distinct (groups_of (pre @ fs) fm) \<Longrightarrow> settled pre fm \<Longrightarrow>
   validateFields fs fm = (ok, fs', fm') \<Longrightarrow> settled (pre @ fs') fm'"
proof (induction fs arbitrary: pre fm ok fs' fm')
  case Nil
  then show ?case by simp
next
  case (Cons f fs)
  show ?case
  proof (cases "required f")
    case True
    obtain ok1 f1 fm1 where v: "validateField f fm = (ok1, f1, fm1)"
      by (cases "validateField f fm")
    obtain ok2 fs2 fm2 where r: "validateFields fs fm1 = (ok2, fs2, fm2)"
      by (cases "validateFields fs fm1")
    from Cons.prems(3) True v r have eq: "fs' = f1 # fs2" "fm' = fm2" by simp_all
    from validateField_alone(1) [OF Cons.prems(1) v]
    have d1: "distinct (groups_of ((pre @ [f1]) @ fs) fm1)" by simp
    from validateField_settled [OF Cons.prems(1,2) v] have "settled (pre @ [f1]) fm1" .
    from Cons.IH [OF d1 this r] show ?thesis by (simp add: eq)
  next
    case False
    obtain ok2 fs2 fm2 where r: "validateFields fs fm = (ok2, fs2, fm2)"
      by (cases "validateFields fs fm")
    from Cons.prems(3) False r have eq: "fs' = f # fs2" "fm' = fm2" by simp_all
    from Cons.prems(1) have d1: "distinct (groups_of ((pre @ [f]) @ fs) fm)" by simp
    from Cons.prems(2) False have "settled (pre @ [f]) fm" by (simp add: settled_def)
    from Cons.IH [OF d1 this r] show ?thesis by (simp add: eq)
  qed
qed

subsection \<open>The error display over the events\<close>

lemma error_shown_cong:
  "closest_form_group x' = closest_form_group x \<Longrightarrow> form_groups fm' = form_groups fm \<Longrightarrow>
   error_shown x' fm' = error_shown x fm"
  by (simp add: error_shown_def fieldGroup_of_def split: option.splits)

lemma groups_of_map:
  assumes "\<And>f. closest_form_group (h f) = closest_form_group f"
    and "length (form_groups fm') = length (form_groups fm)"
  shows "groups_of (map h fs) fm' = groups_of fs fm"
proof -
  have "fieldGroup_of (h f) fm' = fieldGroup_of f fm" for f
    using assms by (intro fieldGroup_of_cong) simp_all
  then show ?thesis by (simp add: groups_of_def comp_def)
qed

lemma tidy_cong:
  assumes "form_groups fm' = form_groups fm"
  shows "tidy fs fm' = tidy fs fm"
proof -
  have "error_shown x fm' = error_shown x fm" for x
    using assms by (intro error_shown_cong) simp_all
  moreover have "groups_of fs fm' = groups_of fs fm"
    using assms by (intro groups_of_cong) simp
  ultimately show ?thesis by (simp add: tidy_def)
qed

lemma settled_cong:
  assumes "form_groups fm' = form_groups fm"
  shows "settled fs fm' = settled fs fm"
proof -
  have "error_shown x fm' = error_shown x fm" for x
    using assms by (intro error_shown_cong) simp_all
  moreover have "fieldGroup_of x fm' = fieldGroup_of x fm" for x
    using assms by (intro fieldGroup_of_cong) simp_all
  ultimately show ?thesis by (simp add: settled_def)
qed

lemma tidy_reset:
  assumes "tidy fs fm" and "form_groups fm' = form_groups fm"
  shows "tidy (map (\<lambda>f. f\<lparr>value := defaultValue f\<rparr>) fs) fm'"
proof -
  have "groups_of (map (\<lambda>f. f\<lparr>value := defaultValue f\<rparr>) fs) fm' = groups_of fs fm"
    using assms(2) by (intro groups_of_map) simp_all
  moreover have "error_shown (f\<lparr>value := defaultValue f\<rparr>) fm' = error_shown f fm" for f
    using assms(2) by (intro error_shown_cong) simp_all
  ultimately show ?thesis using assms(1) by (auto simp: tidy_def)
qed

lemma validateFields_rest:
  "validateFields fs fm = (ok, fs', fm') \<Longrightarrow>
   form_fields fm' = form_fields fm \<and> general_errors fm' = general_errors fm
   \<and> success_messages fm' = success_messages fm \<and> submitButton fm' = submitButton fm
   \<and> awaiting fm' = awaiting fm"
proof (induction fs arbitrary: fm ok fs' fm')
  case Nil
  then show ?case by simp
next
  case (Cons f fs)
  show ?case
  proof (cases "required f")
    case True
    obtain ok1 f1 fm1 where v: "validateField f fm = (ok1, f1, fm1)"
      by (cases "validateField f fm")
    obtain ok2 fs2 fm2 where r: "validateFields fs fm1 = (ok2, fs2, fm2)"
      by (cases "validateFields fs fm1")
    from Cons.prems True v r have eq: "fm' = fm2" by simp
    from v have "fm1 = snd (snd (validateField f fm))" by simp
    with Cons.IH [OF r] show ?thesis by (simp add: eq validateField_rest)
  next
    case False
    obtain ok2 fs2 fm2 where r: "validateFields fs fm = (ok2, fs2, fm2)"
      by (cases "validateFields fs fm")
    from Cons.prems False r have eq: "fm' = fm2" by simp
    with Cons.IH [OF r] show ?thesis by simp
  qed
qed

text \<open>
  The submit handler, seen from the fields: the validated fields, and groups that nothing
  after the validation touches.
\<close>

lemma handleSubmit_fields:
  assumes "validateFields (form_fields fm) fm = (ok, fs', fm')"
  shows "form_fields (handleSubmit fm) = fs' \<and> form_groups (handleSubmit fm) = form_groups fm'"
proof -
  let ?fm1 = "fm'\<lparr>form_fields := fs'\<rparr>"
  have vf: "validateForm fm = (ok, ?fm1)"
    using assms by (simp add: validateForm_def)
  show ?thesis
  proof (cases ok)
    case True
    then show ?thesis
      by (cases "submitButton ?fm1") (simp_all add: handleSubmit_def vf submitForm_begin_def Let_def)
  next
    case False
    then show ?thesis
      by (cases "general_errors ?fm1") (simp_all add: handleSubmit_def vf showFormError_def)
  qed
qed

lemma tidy_handleSubmit:
  assumes "tidy (form_fields fm) fm"
  shows "tidy (form_fields (handleSubmit fm)) (handleSubmit fm)"
proof -
  obtain ok fs' fm' where v: "validateFields (form_fields fm) fm = (ok, fs', fm')"
    by (cases "validateFields (form_fields fm) fm")
  from validateFields_tidy [of "[]", OF _ v] assms have "tidy fs' fm'" by simp
  with handleSubmit_fields [OF v] tidy_cong [of "handleSubmit fm" fm' fs'] show ?thesis
    by simp
qed

lemma settled_handleSubmit:
  assumes "one_field_per_group fm"
  shows "settled (form_fields (handleSubmit fm)) (handleSubmit fm)"
proof -
  obtain ok fs' fm' where v: "validateFields (form_fields fm) fm = (ok, fs', fm')"
    by (cases "validateFields (form_fields fm) fm")
  from validateFields_settled [of "[]", OF _ _ v] assms have "settled fs' fm'"
    by (simp add: one_field_per_group_def settled_def)
  with handleSubmit_fields [OF v] settled_cong [of "handleSubmit fm" fm' fs'] show ?thesis
    by simp
qed

lemma tidy_blur:
  assumes t: "tidy (form_fields fm) fm"
  shows "tidy (form_fields (form_step (Blur i) fm)) (form_step (Blur i) fm)"
proof (cases "i < length (form_fields fm)")
  case False
  with t show ?thesis by simp
next
  case True
  let ?fs = "form_fields fm"
  obtain ok f' fm1 where v: "validateField (?fs ! i) fm = (ok, f', fm1)"
    by (cases "validateField (?fs ! i) fm")
  from v have fm1: "fm1 = snd (snd (validateField (?fs ! i) fm))" by simp
  have "form_fields fm1 = ?fs"
    by (simp add: fm1 validateField_rest)
  with True v have step: "form_step (Blur i) fm = fm1\<lparr>form_fields := ?fs[i := f']\<rparr>"
    by simp
  from t True have "tidy (take i ?fs @ ?fs ! i # drop (Suc i) ?fs) fm"
    by (simp add: id_take_nth_drop [symmetric])
  from validateField_tidy [OF this v] True have "tidy (?fs[i := f']) fm1"
    by (simp add: upd_conv_take_nth_drop)
  with tidy_cong [of "fm1\<lparr>form_fields := ?fs[i := f']\<rparr>" fm1 "?fs[i := f']"] show ?thesis
    unfolding step by simp
qed

lemma tidy_input:
  assumes t: "tidy (form_fields fm) fm"
  shows "tidy (form_fields (form_step (Input i v) fm)) (form_step (Input i v) fm)"
proof (cases "i < length (form_fields fm)")
  case False
  with t show ?thesis by simp
next
  case True
  let ?fs = "form_fields fm"
  let ?f = "(?fs ! i)\<lparr>value := v\<rparr>"
  let ?fm = "form_step (Input i v) fm"
  have fields: "form_fields ?fm = ?fs[i := ?f]"
    using True by (simp add: Let_def clearError_rest)
  have "fieldGroup_of ?f (fm\<lparr>form_fields := ?fs[i := ?f]\<rparr>) = fieldGroup_of ?f fm"
    by (intro fieldGroup_of_cong) simp_all
  with True have gs: "form_groups ?fm = mark_group (fieldGroup_of ?f fm) False (form_groups fm)"
    by (simp add: Let_def clearError_groups)
  then have len: "length (form_groups ?fm) = length (form_groups fm)" by simp
  have g: "groups_of (?fs[i := ?f]) ?fm = groups_of ?fs fm"
  proof -
    have "groups_of (?fs[i := ?f]) ?fm = groups_of (take i ?fs @ ?f # drop (Suc i) ?fs) fm"
      using True by (simp add: upd_conv_take_nth_drop groups_of_cong [OF len] del: form_step.simps)
    also have "\<dots> = groups_of (take i ?fs @ ?fs ! i # drop (Suc i) ?fs) fm"
      by (rule groups_of_same_group) simp
    finally show ?thesis using True by (simp add: id_take_nth_drop [symmetric])
  qed
  have shown: "validity x = Some False" if x: "x \<in> set (?fs[i := ?f])" and e: "error_shown x ?fm" for x
  proof -
    from e error_shown_mark [OF refl gs, of x] have e0: "error_shown x fm"
      by (auto simp del: form_step.simps split: if_splits)
    from x True have "x = ?f \<or> x \<in> set ?fs"
      by (auto dest: set_update_subset_insert [THEN subsetD])
    then show ?thesis
    proof
      assume xf: "x = ?f"
      from e0 have "error_shown (?fs ! i) fm"
        by (simp add: xf error_shown_def fieldGroup_of_def)
      with t True show ?thesis by (simp add: tidy_def xf)
    next
      assume "x \<in> set ?fs"
      with t e0 show ?thesis by (simp add: tidy_def)
    qed
  qed
  from t g shown show ?thesis by (auto simp: tidy_def fields simp del: form_step.simps)
qed

lemma tidy_settle:
  assumes "tidy (form_fields fm) fm"
  shows "tidy (form_fields (submitForm_settle out t fm)) (submitForm_settle out t fm)"
proof (cases out)
  case Resolved
  have "form_fields (submitForm_settle Resolved t fm)
      = map (\<lambda>f. f\<lparr>value := defaultValue f\<rparr>) (form_fields fm)"
    "form_groups (submitForm_settle Resolved t fm) = form_groups fm"
    by (simp_all add: submitForm_settle_def Let_def form_reset_def showSuccessMessage_def)
  with tidy_reset [OF assms, of "submitForm_settle Resolved t fm"] show ?thesis
    by (simp add: Resolved)
next
  case Rejected
  have "form_fields (submitForm_settle Rejected t fm) = form_fields fm"
    "form_groups (submitForm_settle Rejected t fm) = form_groups fm"
    by (simp_all add: submitForm_settle_def Let_def showFormError_def split: list.splits)
  with assms tidy_cong [of "submitForm_settle Rejected t fm" fm "form_fields fm"] show ?thesis
    by (simp add: Rejected)
qed

lemma tidy_step:
  assumes "tidy (form_fields fm) fm"
  shows "tidy (form_fields (form_step e fm)) (form_step e fm)"
proof (cases e)
  case (Blur i)
  with assms show ?thesis by (simp only: tidy_blur)
next
  case (Input i v)
  with assms show ?thesis by (simp only: tidy_input)
next
  case Submit
  with assms show ?thesis by (simp add: tidy_handleSubmit)
next
  case (Settle out)
  with assms show ?thesis by (simp add: tidy_settle split: list.splits)
qed

lemma tidy_run:
  "tidy (form_fields fm) fm \<Longrightarrow> tidy (form_fields (form_run es fm)) (form_run es fm)"
  by (induction es arbitrary: fm) (simp_all add: tidy_step)

lemma pristine_tidy: "one_field_per_group fm \<Longrightarrow> pristine fm \<Longrightarrow> tidy (form_fields fm) fm"
  by (simp add: one_field_per_group_def pristine_def tidy_def)

lemma clearError_hides: "\<not> error_shown f (clearError f fm)"
  using error_shown_mark [OF refl clearError_groups, of f f fm] by simp

text \<open>
  Claim C4, as amended. For a field in a form group, right after \<^verbatim>\<open>validateField\<close> has run
  for it (on blur, and on submit for a required field) the error is on display exactly when
  that validation returned invalid, and the error element shows \<^verbatim>\<open>block\<close> or \<^verbatim>\<open>none\<close>
  accordingly. The input handler hides the error of the field and validates nothing. When
  no two fields are in the same form group: after the submit handler every required field
  in a group shows its error exactly when its validation returned invalid, and over every
  sequence of events on a page that loaded without errors on display, an error on display
  means that the latest validation of the field returned invalid. (Fields in one group
  share the display, so the last two statements are not made for them.)
\<close>

theorem error_display_after_events:
  "(fieldGroup_of f fm \<noteq> None \<longrightarrow>
      error_shown (fst (snd (validateField f fm))) (snd (snd (validateField f fm)))
        = (\<not> fst (validateField f fm)))
   \<and> validity (fst (snd (validateField f fm))) = Some (fst (validateField f fm))
   \<and> (\<forall>e. errorElement_of (fieldGroup_of f fm) fm = Some e \<longrightarrow>
         display (form_errors (snd (snd (validateField f fm))) ! e)
           = (if fst (validateField f fm) then ''none'' else ''block''))
   \<and> \<not> error_shown f (clearError f fm)
   \<and> (one_field_per_group fm \<longrightarrow>
        (\<forall>x \<in> set (form_fields (handleSubmit fm)).
           required x \<and> fieldGroup_of x (handleSubmit fm) \<noteq> None \<longrightarrow>
           (error_shown x (handleSubmit fm) \<longleftrightarrow> validity x = Some False)))
   \<and> (one_field_per_group fm \<and> pristine fm \<longrightarrow>
        (\<forall>x \<in> set (form_fields (form_run es fm)).
           error_shown x (form_run es fm) \<longrightarrow> validity x = Some False))"
proof -
  have d: "distinct (groups_of ([] @ f # []) fm)"
    by (simp add: groups_of_def split: option.splits)
  have v: "validateField f fm
      = (fst (validateField f fm), fst (snd (validateField f fm)), snd (snd (validateField f fm)))"
    by simp
  note one = validateField_alone(3,4) [OF d v]
  have sub: "\<forall>x \<in> set (form_fields (handleSubmit fm)).
           required x \<and> fieldGroup_of x (handleSubmit fm) \<noteq> None \<longrightarrow>
           (error_shown x (handleSubmit fm) \<longleftrightarrow> validity x = Some False)"
    if "one_field_per_group fm"
    using settled_handleSubmit [OF that] by (simp add: settled_def)
  have run: "\<forall>x \<in> set (form_fields (form_run es fm)).
           error_shown x (form_run es fm) \<longrightarrow> validity x = Some False"
    if "one_field_per_group fm \<and> pristine fm"
    using tidy_run [OF pristine_tidy, of fm es] that by (simp add: tidy_def)
  from one sub run show ?thesis
    by (simp add: validateField_display clearError_hides)
qed

theorem error_display_after_events_witness:
  "fieldGroup_of (demo_field 1 ''email'' True ''a@b'') (demo_form ''Ana'' ''a@b'' [] ''Oi'') \<noteq> None
   \<and> \<not> fst (validateField (demo_field 1 ''email'' True ''a@b'') (demo_form ''Ana'' ''a@b'' [] ''Oi''))
   \<and> error_shown (fst (snd (validateField (demo_field 1 ''email'' True ''a@b'') (demo_form ''Ana'' ''a@b'' [] ''Oi''))))
        (snd (snd (validateField (demo_field 1 ''email'' True ''a@b'') (demo_form ''Ana'' ''a@b'' [] ''Oi''))))
   \<and> errorElement_of (Some 1) (demo_form ''Ana'' ''a@b'' [] ''Oi'') = Some 1
   \<and> display (form_errors (snd (snd (validateField (demo_field 1 ''email'' True ''a@b'')
        (demo_form ''Ana'' ''a@b'' [] ''Oi'')))) ! 1) = ''block''
   \<and> one_field_per_group (demo_form ''Ana'' ''a@b'' [] ''Oi'')
   \<and> pristine (demo_form ''Ana'' ''a@b'' [] ''Oi'')
   \<and> (\<exists>x \<in> set (form_fields (handleSubmit (demo_form ''Ana'' ''a@b'' [] ''Oi''))).
         required x \<and> fieldGroup_of x (handleSubmit (demo_form ''Ana'' ''a@b'' [] ''Oi'')) \<noteq> None
         \<and> error_shown x (handleSubmit (demo_form ''Ana'' ''a@b'' [] ''Oi''))
         \<and> validity x = Some False)
   \<and> (\<exists>x \<in> set (form_fields (form_run [Blur 1] (demo_form ''Ana'' ''a@b'' [] ''Oi''))).
         error_shown x (form_run [Blur 1] (demo_form ''Ana'' ''a@b'' [] ''Oi''))
         \<and> validity x = Some False)"
proof -
  let ?f = "demo_field 1 ''email'' True ''a@b''"
  let ?fm = "demo_form ''Ana'' ''a@b'' [] ''Oi''"
  have grp: "fieldGroup_of ?f ?fm = Some 1" "errorElement_of (Some 1) ?fm = Some 1"
    by code_simp+
  have bad: "\<not> fst (validateField ?f ?fm)"
    by code_simp
  have page: "one_field_per_group ?fm" "pristine ?fm"
    by code_simp+
  have sub: "\<exists>x \<in> set (form_fields (handleSubmit ?fm)).
      required x \<and> fieldGroup_of x (handleSubmit ?fm) \<noteq> None \<and> error_shown x (handleSubmit ?fm)"
    by code_simp
  have blur: "\<exists>x \<in> set (form_fields (form_run [Blur 1] ?fm)). error_shown x (form_run [Blur 1] ?fm)"
    by code_simp
  note inst = error_display_after_events [of ?f ?fm "[Blur 1]"]
  from inst grp bad have a: "error_shown (fst (snd (validateField ?f ?fm))) (snd (snd (validateField ?f ?fm)))"
    "display (form_errors (snd (snd (validateField ?f ?fm))) ! 1) = ''block''"
    by simp_all
  from inst page sub have b: "\<exists>x \<in> set (form_fields (handleSubmit ?fm)).
      required x \<and> fieldGroup_of x (handleSubmit ?fm) \<noteq> None \<and> error_shown x (handleSubmit ?fm)
      \<and> validity x = Some False"
    by blast
  from inst page blur have c: "\<exists>x \<in> set (form_fields (form_run [Blur 1] ?fm)).
      error_shown x (form_run [Blur 1] ?fm) \<and> validity x = Some False"
    by blast
  from grp bad a page b c show ?thesis by simp
qed

text \<open>
  Claim C4 as stated fails after an input event: the e-mail field was found invalid on blur,
  the user types one more character, the field is still invalid and its latest validation
  returned invalid, yet no error is on display.
\<close>

theorem error_hidden_after_input_counterexample:
  "validity (form_fields (form_run [Blur 1, Input 1 ''a@bc''] (demo_form ''Ana'' ''a@b'' [] ''Oi'')) ! 1)
     = Some False
   \<and> \<not> error_shown
        (form_fields (form_run [Blur 1, Input 1 ''a@bc''] (demo_form ''Ana'' ''a@b'' [] ''Oi'')) ! 1)
        (form_run [Blur 1, Input 1 ''a@bc''] (demo_form ''Ana'' ''a@b'' [] ''Oi''))
   \<and> \<not> fst (validateField
        (form_fields (form_run [Blur 1, Input 1 ''a@bc''] (demo_form ''Ana'' ''a@b'' [] ''Oi'')) ! 1)
        (form_run [Blur 1, Input 1 ''a@bc''] (demo_form ''Ana'' ''a@b'' [] ''Oi'')))"
  by code_simp

text \<open>
  Why the fields must not share a group. With the name and the e-mail field in one group,
  a blur on the empty name field puts the error on display for the e-mail field as well,
  which has not been validated; and on submit the valid e-mail field, validated last, takes
  the error of the invalid name field from the display.
\<close>

lemma shared_group_display:
  "\<not> one_field_per_group (shared_form [] ''a@b.com'')
   \<and> map (\<lambda>x. (error_shown x (form_run [Blur 0] (shared_form [] ''a@b.com'')), validity x))
        (form_fields (form_run [Blur 0] (shared_form [] ''a@b.com'')))
       = [(True, Some False), (True, None)]
   \<and> map (\<lambda>x. (error_shown x (form_run [Submit] (shared_form [] ''a@b.com'')), validity x))
        (form_fields (form_run [Submit] (shared_form [] ''a@b.com'')))
       = [(False, Some False), (False, Some True)]"
  by code_simp

subsection \<open>Submitting\<close>

lemma validateFields_fst:
  "fst (validateFields fs fm) \<longleftrightarrow> (\<forall>f \<in> set fs. required f \<longrightarrow> fst (validateField f fm))"
proof (induction fs arbitrary: fm)
  case Nil
  then show ?case by simp
next
  case (Cons f fs)
  have "fst (validateField x (snd (snd (validateField f fm)))) = fst (validateField x fm)" for x
    by (rule validateField_independent)
  with Cons show ?case by (simp add: split_beta Let_def)
qed

lemma validateFields_values: "map value (fst (snd (validateFields fs fm))) = map value fs"
  by (induction fs arbitrary: fm) (simp_all add: split_beta Let_def validateField_field)

text \<open>
  Claim C6. When a required field fails validation, the submit handler starts no
  submission (no run of \<^verbatim>\<open>submitForm\<close> is waiting and the submit button is untouched), the
  general error message is put in the first general error element (the only one, unless the
  page had several), and every field keeps its value.
\<close>

theorem handleSubmit_invalid_aborts:
  assumes "\<exists>f \<in> set (form_fields fm). required f \<and> \<not> fst (validateField f fm)"
  shows "awaiting (handleSubmit fm) = awaiting fm
     \<and> submitButton (handleSubmit fm) = submitButton fm
     \<and> success_messages (handleSubmit fm) = success_messages fm
     \<and> general_errors (handleSubmit fm) = msg_fix_errors # tl (general_errors fm)
     \<and> (length (general_errors fm) \<le> 1 \<longrightarrow> general_errors (handleSubmit fm) = [msg_fix_errors])
     \<and> map value (form_fields (handleSubmit fm)) = map value (form_fields fm)"
proof -
  obtain ok fs' fm' where v: "validateFields (form_fields fm) fm = (ok, fs', fm')"
    by (cases "validateFields (form_fields fm) fm")
  from assms validateFields_fst [of "form_fields fm" fm] v have "\<not> ok" by auto
  then have hs: "handleSubmit fm = showFormError msg_fix_errors (fm'\<lparr>form_fields := fs'\<rparr>)"
    using v by (simp add: handleSubmit_def validateForm_def)
  from validateFields_values [of "form_fields fm" fm] v
  have vals: "map value fs' = map value (form_fields fm)" by simp
  from validateFields_rest [OF v] vals show ?thesis
    unfolding hs
    by (cases "general_errors fm") (simp_all add: showFormError_def)
qed

theorem handleSubmit_invalid_aborts_witness:
  "(\<exists>f \<in> set (form_fields (demo_form ''Ana'' ''a@b'' [] ''Oi'')).
      required f \<and> \<not> fst (validateField f (demo_form ''Ana'' ''a@b'' [] ''Oi'')))
   \<and> length (general_errors (demo_form ''Ana'' ''a@b'' [] ''Oi'')) \<le> 1
   \<and> awaiting (handleSubmit (demo_form ''Ana'' ''a@b'' [] ''Oi'')) = []
   \<and> submitButton (handleSubmit (demo_form ''Ana'' ''a@b'' [] ''Oi''))
       = Some \<lparr>disabled = False, button_text = ''Enviar''\<rparr>
   \<and> general_errors (handleSubmit (demo_form ''Ana'' ''a@b'' [] ''Oi'')) = [msg_fix_errors]
   \<and> map value (form_fields (handleSubmit (demo_form ''Ana'' ''a@b'' [] ''Oi'')))
       = [''Ana'', ''a@b'', [], ''Oi'']"
proof -
  have ex: "\<exists>f \<in> set (form_fields (demo_form ''Ana'' ''a@b'' [] ''Oi'')).
      required f \<and> \<not> fst (validateField f (demo_form ''Ana'' ''a@b'' [] ''Oi''))"
    by code_simp
  from handleSubmit_invalid_aborts [OF ex] ex show ?thesis
    by (simp add: demo_form_def demo_field_def)
qed

text \<open>
  Claim C5. A run of \<^verbatim>\<open>submitForm\<close> on a form with a submit button disables the button and
  holds its text; however the awaited promise settles, the button is enabled again and has
  the held text, also when the page has changed while the run was waiting.
\<close>

theorem submitForm_button_restored:
  assumes "submitButton fm = Some b"
  shows "\<exists>fm1. submitForm_begin fm = Some (button_text b, fm1)
     \<and> submitButton fm1 = Some (b\<lparr>disabled := True, button_text := ''Enviando...''\<rparr>)
     \<and> (\<forall>out. submitButton (submitForm_settle out (button_text b) fm1)
                = Some (b\<lparr>disabled := False\<rparr>))
     \<and> (\<forall>out fm2 b2. submitButton fm2 = Some b2 \<longrightarrow>
           submitButton (submitForm_settle out (button_text b) fm2)
             = Some (b2\<lparr>disabled := False, button_text := button_text b\<rparr>))"
proof -
  have settle: "submitButton (submitForm_settle out t fm2) = Some (b2\<lparr>disabled := False, button_text := t\<rparr>)"
    if "submitButton fm2 = Some b2" for out t fm2 b2
    using that
    by (cases out)
      (simp_all add: submitForm_settle_def Let_def form_reset_def showSuccessMessage_def
        showFormError_def split: list.splits)
  let ?fm1 = "fm\<lparr>submitButton := Some (b\<lparr>disabled := True, button_text := ''Enviando...''\<rparr>),
                 awaiting := awaiting fm @ [button_text b]\<rparr>"
  have "submitForm_begin fm = Some (button_text b, ?fm1)"
    using assms by (simp add: submitForm_begin_def Let_def)
  moreover have "submitButton ?fm1 = Some (b\<lparr>disabled := True, button_text := ''Enviando...''\<rparr>)"
    by simp
  moreover have "\<forall>out. submitButton (submitForm_settle out (button_text b) ?fm1) = Some (b\<lparr>disabled := False\<rparr>)"
    by (simp add: settle [of ?fm1])
  ultimately show ?thesis using settle by blast
qed

theorem submitForm_button_restored_witness:
  "submitButton (demo_form ''Ana'' ''a@b.com'' [] ''Oi'') = Some \<lparr>disabled = False, button_text = ''Enviar''\<rparr>
   \<and> (\<exists>fm1. submitForm_begin (demo_form ''Ana'' ''a@b.com'' [] ''Oi'') = Some (''Enviar'', fm1)
        \<and> submitButton fm1 = Some \<lparr>disabled = True, button_text = ''Enviando...''\<rparr>
        \<and> submitButton (submitForm_settle Resolved ''Enviar'' fm1)
             = Some \<lparr>disabled = False, button_text = ''Enviar''\<rparr>
        \<and> submitButton (submitForm_settle Rejected ''Enviar'' fm1)
             = Some \<lparr>disabled = False, button_text = ''Enviar''\<rparr>
        \<and> submitButton (form_step (Input 0 ''Bia'') fm1)
             = Some \<lparr>disabled = True, button_text = ''Enviando...''\<rparr>
        \<and> submitButton (submitForm_settle Rejected ''Enviar'' (form_step (Input 0 ''Bia'') fm1))
             = Some \<lparr>disabled = False, button_text = ''Enviar''\<rparr>)"
proof -
  have b: "submitButton (demo_form ''Ana'' ''a@b.com'' [] ''Oi'') = Some \<lparr>disabled = False, button_text = ''Enviar''\<rparr>"
    by (simp add: demo_form_def)
  from submitForm_button_restored [OF b] obtain fm1 where
    fm1: "submitForm_begin (demo_form ''Ana'' ''a@b.com'' [] ''Oi'') = Some (''Enviar'', fm1)"
      "submitButton fm1 = Some \<lparr>disabled = True, button_text = ''Enviando...''\<rparr>"
      "\<forall>out. submitButton (submitForm_settle out ''Enviar'' fm1) = Some \<lparr>disabled = False, button_text = ''Enviar''\<rparr>"
    and later: "\<forall>out fm2 b2. submitButton fm2 = Some b2 \<longrightarrow>
           submitButton (submitForm_settle out ''Enviar'' fm2)
             = Some (b2\<lparr>disabled := False, button_text := ''Enviar''\<rparr>)"
    by auto
  have typed: "submitButton (form_step (Input 0 ''Bia'') fm1)
      = Some \<lparr>disabled = True, button_text = ''Enviando...''\<rparr>"
    using fm1(2) by (simp add: Let_def clearError_rest)
  from later typed
  have "submitButton (submitForm_settle Rejected ''Enviar'' (form_step (Input 0 ''Bia'') fm1))
      = Some \<lparr>disabled = False, button_text = ''Enviar''\<rparr>"
    by (simp del: form_step.simps)
  with b fm1 typed show ?thesis by blast
qed

section \<open>Properties of the counter animation\<close>

subsection \<open>Rounding\<close>

lemma pow2_pos: "0 < pow2 e"
  by (simp add: pow2_def)

lemma pow2_eq_power_int: "pow2 e = 2 powi e"
  by (simp add: pow2_def power_int_def field_simps)

lemma pow2_diff: "pow2 (a - b) = pow2 a / pow2 b"
  by (simp add: pow2_eq_power_int power_int_diff)

lemma pow2_neg: "pow2 (- a) = 1 / pow2 a"
  by (simp add: pow2_eq_power_int power_int_minus field_simps)

lemma pow2_nat: "0 \<le> e \<Longrightarrow> pow2 e = 2 ^ nat e"
  by (simp add: pow2_def)

lemma ilog2_le:
  assumes "0 < x"
  shows "pow2 (ilog2 x) \<le> x"
proof (cases "1 \<le> x")
  case True
  then have pos: "0 < \<lfloor>x\<rfloor>" by linarith
  from bitlen_bounds [OF pos] have "(2::int) ^ nat (bitlen \<lfloor>x\<rfloor> - 1) \<le> \<lfloor>x\<rfloor>" by simp
  then have "(of_int ((2::int) ^ nat (bitlen \<lfloor>x\<rfloor> - 1)) :: rat) \<le> of_int \<lfloor>x\<rfloor>"
    by (simp only: of_int_le_iff)
  also have "\<dots> \<le> x" by simp
  finally have "(2::rat) ^ nat (bitlen \<lfloor>x\<rfloor> - 1) \<le> x" by simp
  moreover have "1 \<le> bitlen \<lfloor>x\<rfloor>" using pos by (simp add: bitlen_alt_def)
  ultimately show ?thesis using True by (simp add: ilog2_def pow2_nat)
next
  case False
  define l where "l = bitlen \<lfloor>1 / x\<rfloor>"
  from False assms have "1 < 1 / x" by (simp add: field_simps)
  then have pos: "0 < \<lfloor>1 / x\<rfloor>" by linarith
  from bitlen_bounds [OF pos] have "\<lfloor>1 / x\<rfloor> < (2::int) ^ nat l" by (simp add: l_def)
  then have "\<lfloor>1 / x\<rfloor> + 1 \<le> (2::int) ^ nat l" by simp
  then have "(of_int (\<lfloor>1 / x\<rfloor> + 1) :: rat) \<le> of_int ((2::int) ^ nat l)"
    by (simp only: of_int_le_iff)
  moreover have "1 / x < of_int (\<lfloor>1 / x\<rfloor> + 1)" by linarith
  ultimately have "1 / x < (2::rat) ^ nat l" by simp
  moreover have l0: "0 \<le> l" by (simp add: l_def bitlen_nonneg)
  ultimately have "1 / x < pow2 l" by (simp add: pow2_nat)
  then have "1 / pow2 l < x" using assms pow2_pos [of l] by (simp add: field_simps)
  then have "pow2 (- l) \<le> x" by (simp add: pow2_neg)
  then show ?thesis using False by (simp add: ilog2_def Let_def l_def)
qed

lemma round_half_even_error: "\<bar>of_int (round_half_even m) - m\<bar> \<le> 1 / 2"
proof -
  have "of_int \<lfloor>m\<rfloor> \<le> m" "m < of_int \<lfloor>m\<rfloor> + 1" by linarith+
  then show ?thesis by (auto simp: round_half_even_def Let_def)
qed

text \<open>The relative error of one rounding is at most \<open>2 ^ - 53\<close>.\<close>

lemma fl_error: "\<bar>fl x - x\<bar> \<le> \<bar>x\<bar> / 2 ^ 53"
proof (cases "x = 0")
  case True
  then show ?thesis by (simp add: fl_def)
next
  case False
  define a where "a = \<bar>x\<bar>"
  define e where "e = ilog2 a - 52"
  define r :: rat where "r = of_int (round_half_even (a / pow2 e))"
  have a: "0 < a" using False by (simp add: a_def)
  have p: "0 < pow2 e" by (rule pow2_pos)
  have flx: "fl x = sgn x * r * pow2 e"
    using False by (simp add: fl_def Let_def a_def e_def r_def)
  have x: "x = sgn x * a" by (simp add: a_def sgn_mult_abs)
  have "fl x - x = sgn x * (r * pow2 e - a)"
    by (subst (2) x) (simp add: flx algebra_simps)
  then have "\<bar>fl x - x\<bar> = \<bar>r * pow2 e - a\<bar>"
    using False by (simp add: abs_mult abs_sgn_eq)
  also have "r * pow2 e - a = (r - a / pow2 e) * pow2 e"
    using p by (simp add: field_simps)
  also have "\<bar>\<dots>\<bar> = \<bar>r - a / pow2 e\<bar> * pow2 e"
    using p by (simp add: abs_mult)
  also have "\<dots> \<le> 1 / 2 * pow2 e"
    using round_half_even_error [of "a / pow2 e"] p
    by (intro mult_right_mono) (simp_all add: r_def)
  also have "pow2 e = pow2 (ilog2 a) / 2 ^ 52"
    by (simp add: e_def pow2_diff pow2_nat)
  also have "1 / 2 * (pow2 (ilog2 a) / 2 ^ 52) \<le> 1 / 2 * (a / 2 ^ 52)"
    using ilog2_le [OF a] by (simp add: divide_right_mono)
  also have "\<dots> = a / 2 ^ 53" by simp
  finally show ?thesis by (simp add: a_def)
qed

lemma fl_lower: "0 \<le> x \<Longrightarrow> x - x / 2 ^ 53 \<le> fl x"
  using fl_error [of x] by linarith

lemma fl_upper: "0 \<le> x \<Longrightarrow> fl x \<le> x + x / 2 ^ 53"
  using fl_error [of x] by linarith

lemma fl_lower_neg: "x \<le> 0 \<Longrightarrow> x + x / 2 ^ 53 \<le> fl x"
  using fl_error [of x] by (simp add: abs_of_nonpos abs_le_iff)

lemma fl_upper_neg: "x \<le> 0 \<Longrightarrow> fl x \<le> x - x / 2 ^ 53"
  using fl_error [of x] by (simp add: abs_of_nonpos abs_le_iff)

lemma fl_125: "fl 125 = 125"
  by code_simp

text \<open>While the running value is below a positive target, a frame adds at least 1/250 of the target.\<close>

lemma frame_progress:
  assumes q: "0 < q" and c: "0 \<le> c" "c < q"
  shows "c + q / 250 \<le> fl (c + fl (q / 125))"
proof -
  define i where "i = fl (q / 125)"
  have i: "q / 125 - q / 125 / 2 ^ 53 \<le> i"
    unfolding i_def using q by (intro fl_lower) simp
  then have i0: "0 \<le> i" using q by (simp add: field_simps)
  have "c + i - (c + i) / 2 ^ 53 \<le> fl (c + i)"
    using c i0 by (intro fl_lower) simp
  with i c q show ?thesis unfolding i_def [symmetric] by (simp add: field_simps)
qed

lemma negative_first_frame:
  assumes "q \<le> 0"
  shows "\<not> fl (0 + fl (q / 125)) < q"
proof -
  define i where "i = fl (q / 125)"
  have i: "q / 125 + q / 125 / 2 ^ 53 \<le> i"
    unfolding i_def using assms by (intro fl_lower_neg) simp
  have "i \<le> q / 125 - q / 125 / 2 ^ 53"
    unfolding i_def using assms by (intro fl_upper_neg) simp
  then have "i \<le> 0" using assms by (simp add: field_simps)
  then have "i + i / 2 ^ 53 \<le> fl i" by (rule fl_lower_neg)
  with i assms show ?thesis unfolding i_def [symmetric] by (simp add: field_simps)
qed

subsection \<open>One animation\<close>

lemma overflow_threshold_pos: "0 < overflow_threshold"
  by (simp add: overflow_threshold_def)

lemma to_number_finite:
  "- overflow_threshold < x \<Longrightarrow> x < overflow_threshold \<Longrightarrow> to_number x = Num (fl x)"
  by (simp add: to_number_def)

lemma to_number_nonneg:
  "0 \<le> x \<Longrightarrow> to_number x = (if overflow_threshold \<le> x then PosInf else Num (fl x))"
  using overflow_threshold_pos by (simp add: to_number_def)

lemma to_number_nonpos:
  "x \<le> 0 \<Longrightarrow> to_number x = (if x \<le> - overflow_threshold then NegInf else Num (fl x))"
  using overflow_threshold_pos by (simp add: to_number_def)

lemma overflow_threshold_large: "1000000 < overflow_threshold"
  by (simp add: overflow_threshold_def)

text \<open>Operations on small numbers do not overflow.\<close>

lemma to_number_small:
  assumes "\<bar>x\<bar> < 1000000"
  shows "to_number x = Num (fl x)"
proof -
  from assms overflow_threshold_large
  have "- overflow_threshold < x" "x < overflow_threshold" by linarith+
  then show ?thesis by (rule to_number_finite)
qed

lemma js_add_small:
  "\<bar>x + y\<bar> < 1000000 \<Longrightarrow> fl (x + y) = z \<Longrightarrow> js_add (Num x) (Num y) = Num z"
  by (simp only: js_add.simps to_number_small)

lemma js_div_small:
  "y \<noteq> 0 \<Longrightarrow> \<bar>x / y\<bar> < 1000000 \<Longrightarrow> fl (x / y) = z \<Longrightarrow> js_div (Num x) (Num y) = Num z"
  by (simp only: js_div.simps to_number_small if_False)

lemma frames_per_second: "js_div (Num 2000) (Num 16) = Num 125"
  by (rule js_div_small) (simp_all add: fl_125)

lemma frames_stopped: "frames n (ws, None) = (ws, None)"
  by (cases n) simp_all

lemma nondecreasing_snoc:
  "nondecreasing ws \<Longrightarrow> ws \<noteq> [] \<Longrightarrow> last ws = Num x \<Longrightarrow> x \<le> y \<Longrightarrow>
   nondecreasing (ws @ [Num y])"
  by (induction ws rule: nondecreasing.induct) (auto split: if_splits)

lemma increment_positive: "0 < q \<Longrightarrow> 0 < fl (q / 125)"
proof -
  assume q: "0 < q"
  then have "q / 125 - q / 125 / 2 ^ 53 \<le> fl (q / 125)" by (intro fl_lower) simp
  with q show ?thesis by (simp add: field_simps)
qed

text \<open>The increment of a finite target is finite.\<close>

lemma increment_finite:
  assumes "\<bar>q\<bar> < 125 * overflow_threshold"
  shows "js_div (Num q) (Num 125) = Num (fl (q / 125))"
  using assms by (simp add: to_number_def abs_less_iff)

text \<open>One frame of an animation towards a positive target.\<close>

lemma update_waiting:
  assumes q: "0 < q" and w: "waiting q ws a" and u: "updateCounter a = (x, cb)"
  shows "case cb of None \<Rightarrow> finished q (ws @ [x])
         | Some a' \<Rightarrow> waiting q (ws @ [x]) a' \<and>
             (\<exists>c c'. current a = Num c \<and> current a' = Num c' \<and> c + q / 250 \<le> c')"
proof -
  from w obtain c where a: "a = \<lparr>target = Num q, increment = Num (fl (q / 125)), current = Num c\<rparr>"
    and c: "0 \<le> c" "c < q" and ws: "ws \<noteq> []" "last ws = Num (of_int \<lfloor>c\<rfloor>)" "nondecreasing ws"
    and bl: "\<forall>w \<in> set ws. below q w"
    by (auto simp: waiting_def)
  define c' where "c' = fl (c + fl (q / 125))"
  have prog: "c + q / 250 \<le> c'"
    unfolding c'_def using q c by (rule frame_progress)
  have sum0: "0 \<le> c + fl (q / 125)"
    using c increment_positive [OF q] by simp
  have stop: "finished q (ws @ [Num q])"
  proof -
    have "of_int \<lfloor>c\<rfloor> \<le> c" by simp
    with c have "(of_int \<lfloor>c\<rfloor> :: rat) \<le> q" by linarith
    then have "nondecreasing (ws @ [Num q])"
      using ws by (intro nondecreasing_snoc [where x = "of_int \<lfloor>c\<rfloor>"]) simp_all
    with bl show ?thesis by (simp add: finished_def)
  qed
  show ?thesis
  proof (cases "overflow_threshold \<le> c + fl (q / 125)")
    case True
    with u sum0 have "x = Num q" "cb = None"
      by (auto simp: updateCounter_def a Let_def to_number_nonneg)
    with stop show ?thesis by simp
  next
    case finite: False
    with sum0 have cur: "js_add (Num c) (Num (fl (q / 125))) = Num c'"
      by (simp add: to_number_nonneg c'_def)
    show ?thesis
    proof (cases "c' < q")
      case True
      with u cur have x: "x = Num (of_int \<lfloor>c'\<rfloor>)" and cb: "cb = Some (a\<lparr>current := Num c'\<rparr>)"
        by (auto simp: updateCounter_def a Let_def simp del: js_add.simps)
      have c0: "0 \<le> c'" using prog c q by simp
      have fl_le: "\<lfloor>c\<rfloor> \<le> \<lfloor>c'\<rfloor>" using prog q by (intro floor_mono) simp
      have nd: "nondecreasing (ws @ [Num (of_int \<lfloor>c'\<rfloor>)])"
        using ws fl_le by (intro nondecreasing_snoc [where x = "of_int \<lfloor>c\<rfloor>"]) simp_all
      have "of_int \<lfloor>c'\<rfloor> \<le> c'" by simp
      with True have "(of_int \<lfloor>c'\<rfloor> :: rat) < q" by linarith
      moreover have "0 \<le> \<lfloor>c'\<rfloor>" using c0 by simp
      ultimately have "below q (Num (of_int \<lfloor>c'\<rfloor>))" by (auto simp: below_def)
      with bl nd True c0 prog show ?thesis
        by (auto simp: cb x waiting_def a)
    next
      case False
      with u cur have "x = Num q" "cb = None"
        by (auto simp: updateCounter_def a Let_def simp del: js_add.simps)
      with stop show ?thesis by simp
    qed
  qed
qed

lemma frames_waiting:
  assumes q: "0 < q"
  shows "waiting q ws a \<Longrightarrow> current a = Num c \<Longrightarrow> q \<le> c + of_nat m * (q / 250) \<Longrightarrow>
         snd (frames m (ws, Some a)) = None \<and> finished q (fst (frames m (ws, Some a)))"
proof (induction m arbitrary: ws a c)
  case 0
  then show ?case by (auto simp: waiting_def)
next
  case (Suc m)
  obtain x cb where u: "updateCounter a = (x, cb)" by (cases "updateCounter a")
  note step = update_waiting [OF q Suc.prems(1) u]
  show ?case
  proof (cases cb)
    case None
    with step u show ?thesis by (simp add: frames_stopped)
  next
    case (Some a')
    with step obtain c' where w': "waiting q (ws @ [x]) a'" and c': "current a' = Num c'"
      and prog: "c + q / 250 \<le> c'"
      using Suc.prems(2) by auto
    have "of_nat (Suc m) * (q / 250) = of_nat m * (q / 250) + q / 250"
      by (simp add: algebra_simps)
    with Suc.prems(3) prog have "q \<le> c' + of_nat m * (q / 250)"
      by linarith
    from Suc.IH [OF w' c' this] u Some show ?thesis by simp
  qed
qed

lemma frames_reach:
  assumes q: "0 < q"
  shows "waiting q ws a \<Longrightarrow> snd (frames m (ws, Some a)) = Some a' \<Longrightarrow>
         waiting q (fst (frames m (ws, Some a))) a'"
proof (induction m arbitrary: ws a)
  case 0
  then show ?case by simp
next
  case (Suc m)
  obtain x cb where u: "updateCounter a = (x, cb)" by (cases "updateCounter a")
  note step = update_waiting [OF q Suc.prems(1) u]
  show ?case
  proof (cases cb)
    case None
    with Suc.prems(2) u show ?thesis by (simp add: frames_stopped)
  next
    case (Some b)
    with step have "waiting q (ws @ [x]) b" by simp
    from Suc.IH [OF this] Suc.prems(2) u Some show ?thesis by simp
  qed
qed

text \<open>The call of \<^verbatim>\<open>animateCounter\<close> itself, for a positive finite target.\<close>

lemma animateCounter_positive:
  assumes q: "0 < q" "q < 2 * overflow_threshold" and u: "animateCounter (Num q) = (x, cb)"
  shows "case cb of None \<Rightarrow> x = Num q
         | Some a \<Rightarrow> waiting q [x] a \<and> (\<exists>c. current a = Num c \<and> q / 250 \<le> c)"
proof -
  define c where "c = fl (0 + fl (q / 125))"
  have prog: "0 + q / 250 \<le> c"
    unfolding c_def using q(1) by (intro frame_progress) simp_all
  have inc: "js_div (Num q) (js_div (Num 2000) (Num 16)) = Num (fl (q / 125))"
    using q overflow_threshold_pos
    by (simp only: frames_per_second) (rule increment_finite, simp)
  have start: "animateCounter (Num q) =
      updateCounter \<lparr>target = Num q, increment = Num (fl (q / 125)), current = Num 0\<rparr>"
    by (simp add: animateCounter_def Let_def inc del: js_div.simps)
  have sum0: "0 \<le> 0 + fl (q / 125)"
    using increment_positive [OF q(1)] by simp
  show ?thesis
  proof (cases "overflow_threshold \<le> 0 + fl (q / 125)")
    case True
    with u sum0 have "x = Num q" "cb = None"
      unfolding start by (auto simp: updateCounter_def Let_def to_number_nonneg)
    then show ?thesis by simp
  next
    case finite: False
    with sum0 have cur: "js_add (Num 0) (Num (fl (q / 125))) = Num c"
      unfolding c_def js_add.simps by (subst to_number_nonneg) simp_all
    show ?thesis
    proof (cases "c < q")
      case True
      with u cur have x: "x = Num (of_int \<lfloor>c\<rfloor>)"
        and cb: "cb = Some \<lparr>target = Num q, increment = Num (fl (q / 125)), current = Num c\<rparr>"
        unfolding start by (auto simp: updateCounter_def Let_def simp del: js_add.simps)
      have c0: "0 \<le> c" using prog q by simp
      have "of_int \<lfloor>c\<rfloor> \<le> c" by simp
      with True have "(of_int \<lfloor>c\<rfloor> :: rat) < q" by linarith
      moreover have "0 \<le> \<lfloor>c\<rfloor>" using c0 by simp
      ultimately have "below q (Num (of_int \<lfloor>c\<rfloor>))" by (auto simp: below_def)
      with True c0 prog show ?thesis by (simp add: cb x waiting_def)
    next
      case False
      with u cur have "x = Num q" "cb = None"
        unfolding start by (auto simp: updateCounter_def Let_def simp del: js_add.simps)
      then show ?thesis by simp
    qed
  qed
qed

lemma animation_positive_stops:
  assumes q: "0 < q" "q < 2 * overflow_threshold"
  shows "snd (animation_after 249 (Num q)) = None \<and> finished q (fst (animation_after 249 (Num q)))"
proof -
  obtain x cb where u: "animateCounter (Num q) = (x, cb)" by (cases "animateCounter (Num q)")
  note start = animateCounter_positive [OF q u]
  show ?thesis
  proof (cases cb)
    case None
    with start u show ?thesis by (simp add: animation_after_def frames_stopped finished_def)
  next
    case (Some a)
    with start obtain c where w: "waiting q [x] a" and c: "current a = Num c" and prog: "q / 250 \<le> c"
      by auto
    have "q \<le> c + of_nat 249 * (q / 250)" using prog by simp
    from frames_waiting [OF q(1) w c this] u Some show ?thesis
      by (simp add: animation_after_def)
  qed
qed

lemma animation_positive_reach:
  assumes q: "0 < q" "q < 2 * overflow_threshold"
    and r: "snd (animation_after k (Num q)) = Some a"
  shows "waiting q (fst (animation_after k (Num q))) a"
proof -
  obtain x cb where u: "animateCounter (Num q) = (x, cb)" by (cases "animateCounter (Num q)")
  note start = animateCounter_positive [OF q u]
  show ?thesis
  proof (cases cb)
    case None
    with r u show ?thesis by (simp add: animation_after_def frames_stopped)
  next
    case (Some b)
    with start have "waiting q [x] b" by simp
    from frames_reach [OF q(1) this] r u Some show ?thesis
      by (simp add: animation_after_def)
  qed
qed

text \<open>Targets that are not positive: the first comparison fails.\<close>

lemma animateCounter_not_finite:
  "animateCounter NaN = (NaN, None)"
  "animateCounter PosInf = (PosInf, None)"
  "animateCounter NegInf = (NegInf, None)"
  unfolding animateCounter_def updateCounter_def Let_def frames_per_second
  by simp_all

lemma animateCounter_not_positive:
  assumes q: "q \<le> 0" "- (2 * overflow_threshold) < q"
  shows "animateCounter (Num q) = (Num q, None)"
proof -
  define i where "i = fl (q / 125)"
  have inc: "js_div (Num q) (js_div (Num 2000) (Num 16)) = Num i"
    unfolding i_def using q overflow_threshold_pos
    by (simp only: frames_per_second) (rule increment_finite, simp)
  have i0: "i \<le> 0"
    using fl_upper_neg [of "q / 125"] q(1) unfolding i_def by (simp add: field_simps)
  have "q / 125 + q / 125 / 2 ^ 53 \<le> i"
    unfolding i_def using q(1) by (intro fl_lower_neg) simp
  with q(2) have il: "- overflow_threshold < i"
    using overflow_threshold_pos by (simp add: field_simps)
  have cur: "js_add (Num 0) (Num i) = Num (fl (0 + i))"
    using i0 il unfolding js_add.simps by (intro to_number_finite) (simp_all add: overflow_threshold_pos)
  have "\<not> fl (0 + i) < q"
    unfolding i_def using q(1) by (rule negative_first_frame)
  then show ?thesis
    by (simp add: animateCounter_def updateCounter_def Let_def inc cur
        del: js_div.simps js_add.simps)
qed

text \<open>What \<^verbatim>\<open>parseInt\<close> returns for a whole number.\<close>

lemma parseInt_result_positive:
  assumes "0 < n"
  shows "parseInt_result (Some n) = PosInf
     \<or> (\<exists>q. parseInt_result (Some n) = Num q \<and> 0 < q \<and> q < 2 * overflow_threshold)"
proof (cases "overflow_threshold \<le> of_int n")
  case True
  then show ?thesis by (simp add: to_number_def)
next
  case False
  from assms have n: "(0::rat) < of_int n" by simp
  then have eq: "parseInt_result (Some n) = Num (fl (of_int n))"
    using False by (simp add: to_number_nonneg)
  have "of_int n - of_int n / 2 ^ 53 \<le> fl (of_int n)" using n by (intro fl_lower) simp
  with n have "0 < fl (of_int n)" by (simp add: field_simps)
  moreover have "fl (of_int n) \<le> of_int n + of_int n / 2 ^ 53" using n by (intro fl_upper) simp
  with False have "fl (of_int n) < 2 * overflow_threshold"
    using overflow_threshold_pos by (simp add: field_simps)
  ultimately show ?thesis using eq by simp
qed

lemma parseInt_result_not_positive:
  assumes "n \<le> 0"
  shows "parseInt_result (Some n) = NegInf
     \<or> (\<exists>q. parseInt_result (Some n) = Num q \<and> q \<le> 0 \<and> - (2 * overflow_threshold) < q)"
proof (cases "of_int n \<le> - overflow_threshold")
  case True
  then show ?thesis using overflow_threshold_pos by (simp add: to_number_def)
next
  case False
  from assms have n: "(of_int n :: rat) \<le> 0" by simp
  then have eq: "parseInt_result (Some n) = Num (fl (of_int n))"
    using False by (simp add: to_number_nonpos)
  have "fl (of_int n) \<le> of_int n - of_int n / 2 ^ 53" using n by (intro fl_upper_neg) simp
  with n have "fl (of_int n) \<le> 0" by (simp add: field_simps)
  moreover have "of_int n + of_int n / 2 ^ 53 \<le> fl (of_int n)" using n by (intro fl_lower_neg) simp
  with False have "- (2 * overflow_threshold) < fl (of_int n)"
    using overflow_threshold_pos by (simp add: field_simps)
  ultimately show ?thesis using eq by simp
qed


text \<open>The first frames of the animation towards 100.\<close>

lemma parseInt_100: "parseInt_result (Some 100) = Num 100"
proof -
  have "fl 100 = 100" by code_simp
  then show ?thesis by (simp add: to_number_small)
qed

lemma animation_100_start:
  "animateCounter (Num 100) =
     (Num 0, Some \<lparr>target = Num 100, increment = Num (3602879701896397 / 4503599627370496),
                    current = Num (3602879701896397 / 4503599627370496)\<rparr>)"
proof -
  define a :: rat where "a = 3602879701896397 / 4503599627370496"
  have "fl (100 / 125) = a"
    unfolding a_def by code_simp
  then have "js_div (Num 100) (Num 125) = Num a"
    by (intro js_div_small) simp_all
  then have inc: "js_div (Num 100) (js_div (Num 2000) (Num 16)) = Num a"
    by (simp only: frames_per_second)
  have "fl (0 + a) = a"
    unfolding a_def by code_simp
  then have s1: "js_add (Num 0) (Num a) = Num a"
    by (intro js_add_small) (simp_all add: a_def)
  have "a < 100" "\<lfloor>a\<rfloor> = 0"
    by (simp_all add: a_def floor_eq_iff)
  then have "animateCounter (Num 100) =
     (Num 0, Some \<lparr>target = Num 100, increment = Num a, current = Num a\<rparr>)"
    by (simp add: animateCounter_def updateCounter_def Let_def inc s1
        del: js_add.simps js_div.simps)
  then show ?thesis by (simp only: a_def)
qed

lemma animation_100_first_frames:
  "fst (animation_after 5 (Num 100)) = [Num 0, Num 1, Num 2, Num 3, Num 4, Num 4]"
proof -
  define a :: rat where "a = 3602879701896397 / 4503599627370496"
  define c2 :: rat where "c2 = 3602879701896397 / 2251799813685248"
  define c3 :: rat where "c3 = 1351079888211149 / 562949953421312"
  define c4 :: rat where "c4 = 3602879701896397 / 1125899906842624"
  define c6 :: rat where "c6 = 5404319552844595 / 1125899906842624"
  have start: "animateCounter (Num 100) =
     (Num 0, Some \<lparr>target = Num 100, increment = Num a, current = Num a\<rparr>)"
    unfolding a_def by (rule animation_100_start)
  have "fl (a + a) = c2"
    unfolding a_def c2_def by code_simp
  then have s2: "js_add (Num a) (Num a) = Num c2"
    by (intro js_add_small) (simp_all add: a_def)
  have "fl (c2 + a) = c3"
    unfolding a_def c2_def c3_def by code_simp
  then have s3: "js_add (Num c2) (Num a) = Num c3"
    by (intro js_add_small) (simp_all add: a_def c2_def)
  have "fl (c3 + a) = c4"
    unfolding a_def c3_def c4_def by code_simp
  then have s4: "js_add (Num c3) (Num a) = Num c4"
    by (intro js_add_small) (simp_all add: a_def c3_def)
  have "fl (c4 + a) = 4"
    unfolding a_def c4_def by code_simp
  then have s5: "js_add (Num c4) (Num a) = Num 4"
    by (intro js_add_small) (simp_all add: a_def c4_def)
  have "fl (4 + a) = c6"
    unfolding a_def c6_def by code_simp
  then have s6: "js_add (Num 4) (Num a) = Num c6"
    by (intro js_add_small) (simp_all add: a_def)
  have lt: "c2 < 100" "c3 < 100" "c4 < 100" "c6 < 100"
    by (simp_all add: c2_def c3_def c4_def c6_def)
  have fl: "\<lfloor>c2\<rfloor> = 1" "\<lfloor>c3\<rfloor> = 2" "\<lfloor>c4\<rfloor> = 3" "\<lfloor>c6\<rfloor> = 4"
    by (simp_all add: c2_def c3_def c4_def c6_def floor_eq_iff)
  show ?thesis
    by (simp add: animation_after_def start updateCounter_def Let_def
        eval_nat_numeral s2 s3 s4 s5 s6 lt fl del: js_add.simps)
qed

text \<open>
  Claim C3, as amended. For a counter whose target parses to a positive whole number the
  animation adds the rounded quotient target / 125 to a running value at every frame while
  that value is below the target, and it has stopped after at most 249 frames. The numbers
  shown never decrease (they may repeat), each of them before the last is a whole number
  from 0 up to but not including the target, and the last number shown is the target
  itself.
\<close>

theorem counter_animation_reaches_target:
  assumes "0 < n"
  shows "\<exists>ws. animation_after 249 (parseInt_result (Some n)) = (ws, None)
     \<and> ws \<noteq> [] \<and> last ws = parseInt_result (Some n) \<and> nondecreasing ws
     \<and> (\<forall>w \<in> set (butlast ws).
           (\<exists>i. w = Num (of_int i) \<and> 0 \<le> i) \<and> js_lt w (parseInt_result (Some n)))
     \<and> (\<forall>k a. snd (animation_after k (parseInt_result (Some n))) = Some a \<longrightarrow>
           target a = parseInt_result (Some n)
           \<and> increment a = js_div (parseInt_result (Some n)) (Num 125)
           \<and> js_lt (current a) (parseInt_result (Some n)))"
proof -
  from parseInt_result_positive [OF assms] show ?thesis
  proof
    assume inf: "parseInt_result (Some n) = PosInf"
    have "animation_after k PosInf = ([PosInf], None)" for k
      by (simp add: animation_after_def animateCounter_not_finite frames_stopped)
    then show ?thesis unfolding inf by simp
  next
    assume "\<exists>q. parseInt_result (Some n) = Num q \<and> 0 < q \<and> q < 2 * overflow_threshold"
    then obtain q where t: "parseInt_result (Some n) = Num q"
      and q: "0 < q" "q < 2 * overflow_threshold"
      by blast
    from animation_positive_stops [OF q]
    have stop: "snd (animation_after 249 (Num q)) = None"
      and fin: "finished q (fst (animation_after 249 (Num q)))"
      by simp_all
    have inc: "js_div (Num q) (Num 125) = Num (fl (q / 125))"
      using q overflow_threshold_pos by (intro increment_finite) simp
    have reach: "target a = Num q \<and> increment a = js_div (Num q) (Num 125)
           \<and> js_lt (current a) (Num q)"
      if "snd (animation_after k (Num q)) = Some a" for k a
      using animation_positive_reach [OF q that] unfolding inc by (auto simp: waiting_def)
    have run: "animation_after 249 (Num q) = (fst (animation_after 249 (Num q)), None)"
      using stop by (simp add: prod_eq_iff)
    have shown: "\<forall>w \<in> set (butlast (fst (animation_after 249 (Num q)))).
        (\<exists>i. w = Num (of_int i) \<and> 0 \<le> i) \<and> js_lt w (Num q)"
      using fin by (auto simp: finished_def below_def)
    from run shown fin reach show ?thesis
      unfolding t by (auto simp: finished_def)
  qed
qed

theorem counter_animation_reaches_target_witness:
  "(0::int) < 100
   \<and> (\<exists>ws. animation_after 249 (Num 100) = (ws, None) \<and> last ws = Num 100 \<and> nondecreasing ws)
   \<and> (\<exists>a. snd (animation_after 0 (Num 100)) = Some a \<and> target a = Num 100
          \<and> increment a = js_div (Num 100) (Num 125))"
proof -
  have "\<exists>a. snd (animation_after 0 (Num 100)) = Some a"
    by (simp add: animation_after_def animation_100_start)
  with counter_animation_reaches_target [of 100] show ?thesis
    unfolding parseInt_100 by auto
qed

text \<open>
  Claim C3 as stated has the numbers shown strictly increasing. For the target 100 the
  increment is 0.8 and the first six numbers shown are 0, 1, 2, 3, 4, 4.
\<close>

theorem counter_animation_repeats_counterexample:
  "parseInt_result (Some 100) = Num 100
   \<and> fst (animation_after 5 (Num 100)) = [Num 0, Num 1, Num 2, Num 3, Num 4, Num 4]
   \<and> \<not> increasing (fst (animation_after 5 (Num 100)))"
  by (simp add: animation_100_first_frames parseInt_100 del: parseInt_result.simps)

text \<open>
  Claim C10. The animation stops for every parsed target. When the text is no number (NaN)
  or the number is zero or negative, the first comparison fails, so the target is written
  once and no frame is asked for. For a positive number the increment is positive, every
  frame raises the running value, and no frame is waiting after 249 frames.
\<close>

theorem counter_animation_terminates:
  "(\<exists>k. snd (animation_after k (parseInt_result p)) = None)
   \<and> (p = None \<or> (\<exists>n. p = Some n \<and> n \<le> 0) \<longrightarrow>
        (\<forall>k. animation_after k (parseInt_result p) = ([parseInt_result p], None)))
   \<and> (\<forall>n. p = Some n \<and> 0 < n \<longrightarrow>
         snd (animation_after 249 (parseInt_result p)) = None
         \<and> (\<forall>k a. snd (animation_after k (parseInt_result p)) = Some a \<longrightarrow>
               js_lt (Num 0) (increment a)
               \<and> js_lt (current a) (target a)
               \<and> js_lt (current a) (js_add (current a) (increment a))))"
proof -
  have once: "animation_after k t = ([t], None)" if "animateCounter t = (t, None)" for k t
    using that by (simp add: animation_after_def frames_stopped)
  have np: "animation_after k (parseInt_result p) = ([parseInt_result p], None)"
    if "p = None \<or> (\<exists>n. p = Some n \<and> n \<le> 0)" for k
  proof (cases p)
    case None
    then show ?thesis by (simp add: once animateCounter_not_finite)
  next
    case (Some n)
    with that have "n \<le> 0" by simp
    from parseInt_result_not_positive [OF this] show ?thesis
      unfolding Some by (auto simp: once animateCounter_not_finite animateCounter_not_positive
          simp del: parseInt_result.simps)
  qed
  have pos: "snd (animation_after 249 (parseInt_result p)) = None
         \<and> (\<forall>k a. snd (animation_after k (parseInt_result p)) = Some a \<longrightarrow>
               js_lt (Num 0) (increment a)
               \<and> js_lt (current a) (target a)
               \<and> js_lt (current a) (js_add (current a) (increment a)))"
    if p: "p = Some n" and n: "0 < n" for n
  proof -
    from parseInt_result_positive [OF n] show ?thesis
    proof
      assume inf: "parseInt_result (Some n) = PosInf"
      then show ?thesis unfolding p by (simp add: once animateCounter_not_finite)
    next
      assume "\<exists>q. parseInt_result (Some n) = Num q \<and> 0 < q \<and> q < 2 * overflow_threshold"
      then obtain q where t: "parseInt_result (Some n) = Num q"
        and q: "0 < q" "q < 2 * overflow_threshold"
        by blast
      have "js_lt (Num 0) (increment a) \<and> js_lt (current a) (target a)
            \<and> js_lt (current a) (js_add (current a) (increment a))"
        if "snd (animation_after k (Num q)) = Some a" for k a
      proof -
        from animation_positive_reach [OF q that]
        obtain c where a: "target a = Num q" "current a = Num c" "increment a = Num (fl (q / 125))"
          and c: "0 \<le> c" "c < q"
          by (auto simp: waiting_def)
        from frame_progress [OF q(1) c] q have up: "c < fl (c + fl (q / 125))" by simp
        have "0 \<le> c + fl (q / 125)" using c increment_positive [OF q(1)] by simp
        then have "js_lt (Num c) (js_add (Num c) (Num (fl (q / 125))))"
          using up by (simp add: to_number_nonneg)
        with a c increment_positive [OF q(1)] show ?thesis by simp
      qed
      with animation_positive_stops [OF q] show ?thesis unfolding p t by blast
    qed
  qed
  have "\<exists>k. snd (animation_after k (parseInt_result p)) = None"
  proof (cases "\<exists>n. p = Some n \<and> 0 < n")
    case True
    with pos show ?thesis by blast
  next
    case False
    then have "p = None \<or> (\<exists>n. p = Some n \<and> n \<le> 0)"
      by (cases p) (auto simp: not_less)
    from np [OF this, of 0] show ?thesis by (intro exI [of _ 0]) simp
  qed
  moreover have "p = None \<or> (\<exists>n. p = Some n \<and> n \<le> 0) \<longrightarrow>
        (\<forall>k. animation_after k (parseInt_result p) = ([parseInt_result p], None))"
    using np by (intro impI allI)
  moreover have "\<forall>n. p = Some n \<and> 0 < n \<longrightarrow>
         snd (animation_after 249 (parseInt_result p)) = None
         \<and> (\<forall>k a. snd (animation_after k (parseInt_result p)) = Some a \<longrightarrow>
               js_lt (Num 0) (increment a)
               \<and> js_lt (current a) (target a)
               \<and> js_lt (current a) (js_add (current a) (increment a)))"
  proof (intro allI impI)
    fix n assume "p = Some n \<and> 0 < n"
    then show "snd (animation_after 249 (parseInt_result p)) = None
         \<and> (\<forall>k a. snd (animation_after k (parseInt_result p)) = Some a \<longrightarrow>
               js_lt (Num 0) (increment a)
               \<and> js_lt (current a) (target a)
               \<and> js_lt (current a) (js_add (current a) (increment a)))"
      using pos [of n] by (elim conjE)
  qed
  ultimately show ?thesis by (intro conjI)
qed

theorem counter_animation_terminates_witness:
  "animation_after 3 (parseInt_result None) = ([NaN], None)
   \<and> (\<exists>n. Some (- 7) = Some n \<and> n \<le> (0::int))
   \<and> animation_after 3 (parseInt_result (Some (- 7))) = ([parseInt_result (Some (- 7))], None)
   \<and> (0::int) < 100 \<and> snd (animation_after 249 (Num 100)) = None
   \<and> (\<exists>a. snd (animation_after 0 (Num 100)) = Some a
          \<and> js_lt (Num 0) (increment a) \<and> js_lt (current a) (target a)
          \<and> js_lt (current a) (js_add (current a) (increment a)))"
proof -
  have a: "\<exists>a. snd (animation_after 0 (Num 100)) = Some a"
    by (simp add: animation_after_def animation_100_start)
  have b: "\<exists>n. Some (- 7) = Some n \<and> n \<le> (0::int)" by simp
  from counter_animation_terminates [of None]
  have n: "animation_after 3 (parseInt_result None) = ([NaN], None)"
    by simp
  from counter_animation_terminates [of "Some (- 7)"] b
  have m: "animation_after 3 (parseInt_result (Some (- 7))) = ([parseInt_result (Some (- 7))], None)"
    by blast
  from counter_animation_terminates [of "Some 100"]
  have "snd (animation_after 249 (Num 100)) = None
     \<and> (\<forall>k a. snd (animation_after k (Num 100)) = Some a \<longrightarrow>
               js_lt (Num 0) (increment a) \<and> js_lt (current a) (target a)
               \<and> js_lt (current a) (js_add (current a) (increment a)))"
    unfolding parseInt_100 by simp
  with a have p: "snd (animation_after 249 (Num 100)) = None
     \<and> (\<exists>a. snd (animation_after 0 (Num 100)) = Some a
          \<and> js_lt (Num 0) (increment a) \<and> js_lt (current a) (target a)
          \<and> js_lt (current a) (js_add (current a) (increment a)))"
    by blast
  from n m p b show ?thesis by simp
qed

subsection \<open>The counters of the page\<close>

lemma check_stat_length: "length (statNumbers (check_stat vp j s)) = length (statNumbers s)"
  by (simp add: check_stat_def)

lemma check_stat_other:
  "j \<noteq> i \<Longrightarrow> statNumbers (check_stat vp j s) ! i = statNumbers s ! i
     \<and> (i \<in> animated (check_stat vp j s) \<longleftrightarrow> i \<in> animated s)"
  by (simp add: check_stat_def)

lemma check_stat_member:
  "i \<in> animated s \<Longrightarrow> statNumbers (check_stat vp j s) ! i = statNumbers s ! i
     \<and> i \<in> animated (check_stat vp j s)"
  by (cases "j = i") (simp_all add: check_stat_def)

lemma fold_check_stat_length:
  "length (statNumbers (fold (check_stat vp) js s)) = length (statNumbers s)"
  by (induction js arbitrary: s) (simp_all add: check_stat_length)

lemma fold_check_stat_other:
  "i \<notin> set js \<Longrightarrow> statNumbers (fold (check_stat vp) js s) ! i = statNumbers s ! i
     \<and> (i \<in> animated (fold (check_stat vp) js s) \<longleftrightarrow> i \<in> animated s)"
  by (induction js arbitrary: s) (simp_all add: check_stat_other)

lemma fold_check_stat_member:
  "i \<in> animated s \<Longrightarrow> statNumbers (fold (check_stat vp) js s) ! i = statNumbers s ! i
     \<and> i \<in> animated (fold (check_stat vp) js s)"
proof (induction js arbitrary: s)
  case Nil
  then show ?case by simp
next
  case (Cons j js)
  from check_stat_member [OF Cons.prems, of vp j]
  have "statNumbers (check_stat vp j s) ! i = statNumbers s ! i" "i \<in> animated (check_stat vp j s)"
    by simp_all
  with Cons.IH [of "check_stat vp j s"] show ?case by simp
qed

lemma handleScroll_counter_member:
  "i \<in> animated s \<Longrightarrow> statNumbers (handleScroll_counter vp s) ! i = statNumbers s ! i
     \<and> i \<in> animated (handleScroll_counter vp s)"
  unfolding handleScroll_counter_def by (rule fold_check_stat_member)

lemma handleScroll_counter_first:
  assumes "i \<notin> animated s" "i < length (statNumbers s)" "isInViewport vp i"
  shows "statNumbers (handleScroll_counter vp s) ! i = start_animation (statNumbers s ! i)
     \<and> i \<in> animated (handleScroll_counter vp s)"
proof -
  let ?n = "length (statNumbers s)"
  have "[0 ..< ?n] = [0 ..< i] @ [i ..< ?n]"
    using assms(2) upt_add_eq_append [of 0 i "?n - i"] by simp
  then have split: "[0 ..< ?n] = [0 ..< i] @ i # [Suc i ..< ?n]"
    using assms(2) by (simp add: upt_conv_Cons)
  define s1 where "s1 = fold (check_stat vp) [0 ..< i] s"
  have s1: "statNumbers s1 ! i = statNumbers s ! i" "i \<notin> animated s1" "length (statNumbers s1) = ?n"
    using fold_check_stat_other [of i "[0 ..< i]" vp s] assms(1)
    by (simp_all add: s1_def fold_check_stat_length)
  define s2 where "s2 = check_stat vp i s1"
  have s2: "statNumbers s2 ! i = start_animation (statNumbers s ! i)" "i \<in> animated s2"
    using s1 assms(2,3) by (simp_all add: s2_def check_stat_def)
  have "handleScroll_counter vp s = fold (check_stat vp) [Suc i ..< ?n] s2"
    by (simp add: handleScroll_counter_def split s1_def s2_def)
  with fold_check_stat_member [OF s2(2), of vp "[Suc i ..< ?n]"] s2(1) show ?thesis by simp
qed

lemma run_callbacks_started: "started (run_callbacks as st) = started st"
  by (induction as arbitrary: st) (simp_all add: split_beta)

lemma frame_stat_started: "started (frame_stat st) = started st"
  by (simp add: frame_stat_def run_callbacks_started)

lemma counter_step_animated: "i \<in> animated s \<Longrightarrow> i \<in> animated (counter_step e s)"
  by (cases e) (simp_all add: handleScroll_counter_member)

lemma counter_run_animated: "i \<in> animated s \<Longrightarrow> i \<in> animated (counter_run es s)"
  by (induction es arbitrary: s) (simp_all add: counter_step_animated)

lemma start_animation_started: "started (start_animation st) = Suc (started st)"
  by (simp add: start_animation_def split_beta)

lemma once_check_stat:
  assumes "once s"
  shows "once (check_stat vp j s)"
proof (cases "j \<in> animated s \<or> \<not> isInViewport vp j")
  case True
  with assms show ?thesis by (auto simp: check_stat_def)
next
  case False
  have "started (statNumbers (check_stat vp j s) ! i)
      = (if i \<in> animated (check_stat vp j s) then 1 else 0)"
    if i: "i < length (statNumbers s)" for i
  proof (cases "i = j")
    case True
    with False i assms show ?thesis
      by (simp add: check_stat_def once_def start_animation_started)
  next
    case ne: False
    with False i assms show ?thesis
      by (simp add: check_stat_def once_def)
  qed
  then show ?thesis by (simp add: once_def check_stat_length)
qed

lemma once_fold: "once s \<Longrightarrow> once (fold (check_stat vp) js s)"
  by (induction js arbitrary: s) (simp_all add: once_check_stat)

lemma once_step:
  assumes "once s"
  shows "once (counter_step e s)"
proof (cases e)
  case (Trigger vp)
  with assms show ?thesis by (simp add: handleScroll_counter_def once_fold)
next
  case AnimationFrame
  with assms show ?thesis by (simp add: once_def frame_stat_started)
qed

lemma once_run: "once s \<Longrightarrow> once (counter_run es s)"
  by (induction es arbitrary: s) (simp_all add: once_step)

lemma counter_step_length: "length (statNumbers (counter_step e s)) = length (statNumbers s)"
  by (cases e) (simp_all add: handleScroll_counter_def fold_check_stat_length)

lemma counter_run_length: "length (statNumbers (counter_run es s)) = length (statNumbers s)"
  by (induction es arbitrary: s) (simp_all add: counter_step_length)

lemma fresh_once: "fresh s \<Longrightarrow> once s"
  by (simp add: fresh_def once_def)

text \<open>
  Claim C7. The first trigger that finds an element in the viewport starts its animation
  and puts it into the set. From then on the element stays in the set, and a trigger
  leaves the element as it is: the number it shows, its waiting closures and the count of
  its animations. On a page that starts with nothing animated, \<^verbatim>\<open>animateCounter\<close> has run
  once for the elements in the set and never for the others, after any sequence of triggers
  and animation frames.
\<close>

theorem counter_animates_once:
  "(i \<notin> animated s \<and> i < length (statNumbers s) \<and> isInViewport vp i \<longrightarrow>
      statNumbers (handleScroll_counter vp s) ! i = start_animation (statNumbers s ! i)
      \<and> i \<in> animated (handleScroll_counter vp s))
   \<and> (i \<in> animated s \<longrightarrow>
        statNumbers (handleScroll_counter vp s) ! i = statNumbers s ! i
        \<and> i \<in> animated (handleScroll_counter vp s)
        \<and> i \<in> animated (counter_run es s))
   \<and> (fresh s \<and> i < length (statNumbers s) \<longrightarrow>
        started (statNumbers (counter_run es s) ! i)
          = (if i \<in> animated (counter_run es s) then 1 else 0))"
proof -
  have "started (statNumbers (counter_run es s) ! i)
          = (if i \<in> animated (counter_run es s) then 1 else 0)"
    if "fresh s" "i < length (statNumbers s)"
    using once_run [OF fresh_once [OF that(1)], of es] that(2)
    by (simp add: once_def counter_run_length)
  then show ?thesis
    using handleScroll_counter_first [of i s vp] handleScroll_counter_member [of i s vp]
      counter_run_animated [of i s es]
    by blast
qed

theorem counter_animates_once_witness:
  "0 \<notin> animated demo_counters \<and> 0 < length (statNumbers demo_counters)
   \<and> isInViewport demo_viewport 0 \<and> fresh demo_counters
   \<and> 0 \<in> animated (handleScroll_counter demo_viewport demo_counters)
   \<and> textContent (statNumbers (handleScroll_counter demo_viewport demo_counters) ! 0) = Shown (Num 0)
   \<and> statNumbers (handleScroll_counter demo_viewport (handleScroll_counter demo_viewport demo_counters)) ! 0
       = statNumbers (handleScroll_counter demo_viewport demo_counters) ! 0
   \<and> started (statNumbers (counter_run [Trigger demo_viewport, AnimationFrame, Trigger demo_viewport]
         demo_counters) ! 0) = 1"
proof -
  let ?s1 = "handleScroll_counter demo_viewport demo_counters"
  let ?es = "[Trigger demo_viewport, AnimationFrame, Trigger demo_viewport]"
  have h: "0 \<notin> animated demo_counters" "0 < length (statNumbers demo_counters)"
    "isInViewport demo_viewport 0" "fresh demo_counters"
    by (simp_all add: demo_counters_def demo_viewport_def isInViewport_def fresh_def)
  from counter_animates_once [of 0 demo_counters demo_viewport "[]"] h
  have once1: "statNumbers ?s1 ! 0 = start_animation (statNumbers demo_counters ! 0)"
    "0 \<in> animated ?s1"
    by simp_all
  have shown0: "textContent (statNumbers ?s1 ! 0) = Shown (Num 0)"
    unfolding once1(1) by (simp add: demo_counters_def start_animation_def animation_100_start)
  from counter_animates_once [of 0 ?s1 demo_viewport "[AnimationFrame, Trigger demo_viewport]"] once1(2)
  have twice: "statNumbers (handleScroll_counter demo_viewport ?s1) ! 0 = statNumbers ?s1 ! 0"
    "0 \<in> animated (counter_run [AnimationFrame, Trigger demo_viewport] ?s1)"
    by simp_all
  from twice(2) have "0 \<in> animated (counter_run ?es demo_counters)" by simp
  with counter_animates_once [of 0 demo_counters demo_viewport ?es] h
  have "started (statNumbers (counter_run ?es demo_counters) ! 0) = 1"
    by simp
  with h once1(2) shown0 twice(1) show ?thesis by simp
qed
end
